theory Spec2Isabelle
  imports Main
begin

section \<open>Go values: machine integers, byte slices, outcomes\<close>

text \<open>
  Go's \<^verbatim>\<open>int\<close> is taken as the 64-bit two's-complement integer of the
  usual platforms. It is modelled as an \<^typ>\<open>int\<close> with the wrap-around written
  out at every arithmetic operation of the source: \<^verbatim>\<open>r.pos+pLen\<close>,
  \<^verbatim>\<open>r.written += n\<close>, \<^verbatim>\<open>r.pos += n\<close>, \<^verbatim>\<open>pLen-bufLen\<close> and
  \<^verbatim>\<open>newSize *= expansionFactor\<close>. The length of a slice is never negative and is
  taken as it is.
\<close>

definition max_int :: int where
  "max_int = 2 ^ 63 - 1"

definition wrap64 :: "int \<Rightarrow> int" where
  "wrap64 x = (x + 2 ^ 63) mod 2 ^ 64 - 2 ^ 63"

definition add64 :: "int \<Rightarrow> int \<Rightarrow> int" where
  "add64 a b = wrap64 (a + b)"

definition mul64 :: "int \<Rightarrow> int \<Rightarrow> int" where
  "mul64 a b = wrap64 (a * b)"

definition sub64 :: "int \<Rightarrow> int \<Rightarrow> int" where
  "sub64 a b = wrap64 (a - b)"

text \<open>
  A \<^verbatim>\<open>[]byte\<close> is a list of 8-bit characters. Every slice the buffer owns is
  made by \<^verbatim>\<open>make([]byte, n)\<close> or \<^verbatim>\<open>make([]byte, n, n)\<close>, so its capacity
  equals its length, and \<^verbatim>\<open>len\<close> and \<^verbatim>\<open>cap\<close> coincide on it.
\<close>

type_synonym byte = char

definition zero_byte :: byte where
  "zero_byte = CHR 0x00"

definition len :: "'a list \<Rightarrow> int" where
  "len xs = int (length xs)"

text \<open>
  The builtin \<^verbatim>\<open>copy(dst, src)\<close>: it overwrites the first
  \<open>min (len dst) (len src)\<close> cells of \<open>dst\<close> and returns that number.
\<close>

definition copy :: "byte list \<Rightarrow> byte list \<Rightarrow> byte list \<times> int" where
  "copy dst src =
     (let n = min (length dst) (length src)
      in (take n src @ drop n dst, int n))"

text \<open>
  The slice expressions \<^verbatim>\<open>s[lo:]\<close> and \<^verbatim>\<open>s[:hi]\<close>. Go panics when the
  bound is negative or beyond the slice; \<open>None\<close> is that panic.
\<close>

definition slice_from :: "'a list \<Rightarrow> int \<Rightarrow> 'a list option" where
  "slice_from s lo =
     (if 0 \<le> lo \<and> lo \<le> len s then Some (drop (nat lo) s) else None)"

definition slice_to :: "'a list \<Rightarrow> int \<Rightarrow> 'a list option" where
  "slice_to s hi =
     (if 0 \<le> hi \<and> hi \<le> len s then Some (take (nat hi) s) else None)"

text \<open>
  What a call can do: run forever (\<open>Diverge\<close>), panic, or return a value.
\<close>

datatype 'a outcome = Diverge | Panic | Return 'a

datatype error = ErrCantMakeSlice

text \<open>
  The allocator is the environment of the program: \<open>avail n\<close> tells whether the
  runtime can hand out \<open>n\<close> bytes at this call.
\<close>

type_synonym allocator = "int \<Rightarrow> bool"

section \<open>The ring buffer of ringbuffer.go\<close>

definition expansionFactor :: int where
  "expansionFactor = 2"

record RingBuffer =
  buf :: "byte list"
  pos :: int
  written :: int
  ringMode :: bool
  maxSize :: int

definition Cap :: "RingBuffer \<Rightarrow> int" where
  "Cap r = len (buf r)"

definition Written :: "RingBuffer \<Rightarrow> int" where
  "Written r = written r"

text \<open>
  \<^verbatim>\<open>makeSlice\<close>: \<^verbatim>\<open>make\<close> panics on a negative length and on a length the
  runtime cannot serve; the deferred \<^verbatim>\<open>recover\<close> turns the panic into the error.
\<close>

definition makeSlice :: "allocator \<Rightarrow> int \<Rightarrow> error + byte list" where
  "makeSlice avail n =
     (if n < 0 \<or> \<not> avail n then Inl ErrCantMakeSlice
      else Inr (replicate (nat n) zero_byte))"

text \<open>
  The loop \<^verbatim>\<open>for newSize < size { newSize *= expansionFactor }\<close> of \<^verbatim>\<open>Grow\<close>.
  The multiplication wraps, so the loop need not end: \<open>None\<close> is the run that
  never leaves it.
\<close>

partial_function (option) grow_loop :: "int \<Rightarrow> int \<Rightarrow> int option" where
  "grow_loop newSize sz =
     (if newSize < sz then grow_loop (mul64 newSize expansionFactor) sz
      else Some newSize)"

declare grow_loop.simps [code]

definition Grow :: "allocator \<Rightarrow> int \<Rightarrow> RingBuffer \<Rightarrow> (RingBuffer \<times> error option) outcome" where
  "Grow avail sz r =
     (let newSize = len (buf r);
          newSize = (if newSize = 0 then 1 else newSize)
      in case grow_loop newSize sz of
           None \<Rightarrow> Diverge
         | Some newSize \<Rightarrow>
             (let newSize = (if newSize \<ge> maxSize r then maxSize r else newSize)
              in case makeSlice avail newSize of
                   Inl err \<Rightarrow> Return (r, Some err)
                 | Inr newBuf \<Rightarrow>
                     Return (r\<lparr>buf := fst (copy newBuf (buf r))\<rparr>, None)))"

text \<open>
  \<^verbatim>\<open>writeRing\<close>. A value returned is the new buffer, the count \<open>n\<close> and the
  error of the Go signature \<^verbatim>\<open>(int, error)\<close>. The caller's slice \<open>p\<close> is a value
  here: it is taken not to share memory with the buffer. A write through the slice
  \<^verbatim>\<open>r.buf[r.pos:]\<close> is a write into \<^verbatim>\<open>r.buf\<close> from index \<^verbatim>\<open>r.pos\<close> on.
\<close>

definition writeRing :: "byte list \<Rightarrow> RingBuffer \<Rightarrow> (RingBuffer \<times> int \<times> error option) outcome" where
  "writeRing p r =
     (let pLen = len p; bufLen = len (buf r)
      in if pLen > bufLen then
           (case slice_from p (sub64 pLen bufLen) of
              None \<Rightarrow> Panic
            | Some keep \<Rightarrow>
                Return (r\<lparr>buf := fst (copy (buf r) keep),
                          pos := 0,
                          written := add64 (written r) pLen\<rparr>, pLen, None))
         else
           (case slice_from (buf r) (pos r) of
              None \<Rightarrow> Panic
            | Some dst \<Rightarrow>
                (let (dst', written') = copy dst p;
                     r1 = r\<lparr>buf := take (nat (pos r)) (buf r) @ dst', pos := 0\<rparr>
                 in if pLen > written' then
                      (case slice_from p written' of
                         None \<Rightarrow> Panic
                       | Some rest \<Rightarrow>
                           (let (buf', n) = copy (buf r1) rest;
                                r2 = r1\<lparr>buf := buf', pos := n\<rparr>
                            in Return (r2\<lparr>written := add64 (written r2) pLen\<rparr>, pLen, None)))
                    else Return (r1\<lparr>written := add64 (written r1) pLen\<rparr>, pLen, None))))"

text \<open>\<^verbatim>\<open>write\<close>, the path of the dynamic-array mode.\<close>

definition "write" :: "allocator \<Rightarrow> byte list \<Rightarrow> RingBuffer \<Rightarrow> (RingBuffer \<times> int \<times> error option) outcome" where
  "write avail p r =
     (let pLen = len p
      in case (if len (buf r) < add64 (pos r) pLen
               then Grow avail (add64 (pos r) pLen) r
               else Return (r, None)) of
           Diverge \<Rightarrow> Diverge
         | Panic \<Rightarrow> Panic
         | Return (r1, Some err) \<Rightarrow> Return (r1, 0, Some err)
         | Return (r1, None) \<Rightarrow>
             if len (buf r1) \<ge> add64 (pos r1) pLen then
               (case slice_from (buf r1) (pos r1) of
                  None \<Rightarrow> Panic
                | Some dst \<Rightarrow>
                    (let (dst', n) = copy dst p;
                         r2 = r1\<lparr>buf := take (nat (pos r1)) (buf r1) @ dst'\<rparr>;
                         r3 = r2\<lparr>written := add64 (written r2) n\<rparr>;
                         r4 = r3\<lparr>pos := add64 (pos r3) n\<rparr>;
                         r5 = (if pos r4 = maxSize r4
                               then r4\<lparr>ringMode := True, pos := 0\<rparr> else r4)
                     in Return (r5, n, None)))
             else writeRing p (r1\<lparr>ringMode := True\<rparr>))"

text \<open>
  The first statement of \<^verbatim>\<open>write\<close> on its own: the call of \<^verbatim>\<open>Grow\<close> when
  the buffer is too short for the write, and nothing otherwise.
\<close>

definition grown :: "allocator \<Rightarrow> byte list \<Rightarrow> RingBuffer \<Rightarrow> (RingBuffer \<times> error option) outcome" where
  "grown avail p r =
     (if len (buf r) < add64 (pos r) (len p)
      then Grow avail (add64 (pos r) (len p)) r else Return (r, None))"

definition Write :: "allocator \<Rightarrow> byte list \<Rightarrow> RingBuffer \<Rightarrow> (RingBuffer \<times> int \<times> error option) outcome" where
  "Write avail p r = (if ringMode r then writeRing p r else write avail p r)"

text \<open>
  \<^verbatim>\<open>Bytes\<close>. In ring mode \<^verbatim>\<open>append(r.buf[r.pos:], r.buf[:r.pos]...)\<close> never
  writes into the buffer: the first operand has no spare capacity.
\<close>

definition Bytes :: "RingBuffer \<Rightarrow> byte list outcome" where
  "Bytes r =
     (if ringMode r then
        (case slice_from (buf r) (pos r) of
           None \<Rightarrow> Panic
         | Some oldest_part \<Rightarrow>
             (case slice_to (buf r) (pos r) of
                None \<Rightarrow> Panic
              | Some newest_part \<Rightarrow> Return (oldest_part @ newest_part)))
      else
        (case slice_to (buf r) (pos r) of
           None \<Rightarrow> Panic
         | Some content \<Rightarrow> Return content))"

definition Reset :: "RingBuffer \<Rightarrow> RingBuffer" where
  "Reset r = r\<lparr>written := 0, ringMode := False, pos := 0\<rparr>"

text \<open>
  \<^verbatim>\<open>NewRingBuffer\<close>: \<^verbatim>\<open>make\<close> with a negative length panics, and nothing
  recovers it here. The allocation of the first slice is otherwise taken to succeed.
\<close>

definition NewRingBuffer :: "int \<Rightarrow> int \<Rightarrow> RingBuffer outcome" where
  "NewRingBuffer initialSize maxSize' =
     (let initialSize = (if initialSize > maxSize' then maxSize' else initialSize)
      in if initialSize < 0 then Panic
         else Return \<lparr>buf = replicate (nat initialSize) zero_byte,
                      pos = 0, written = 0, ringMode = False,
                      maxSize = maxSize'\<rparr>)"

section \<open>Runs: sequences of calls on one buffer\<close>

text \<open>
  A caller's program is a list of calls, each with the allocator it meets. The run
  threads the buffer through them and keeps, beside it, the bytes of all the writes
  that returned no error since construction or the last \<^verbatim>\<open>Reset\<close>; the buffer
  never reads that log. A call that returns an error leaves the caller free to go on.
\<close>

datatype op = OpWrite "byte list" | OpGrow int | OpBytes | OpReset

fun exec :: "allocator \<Rightarrow> op \<Rightarrow> RingBuffer \<times> byte list \<Rightarrow> (RingBuffer \<times> byte list) outcome" where
  "exec avail (OpWrite p) (r, submitted) =
     (case Write avail p r of
        Diverge \<Rightarrow> Diverge
      | Panic \<Rightarrow> Panic
      | Return (r', n, None) \<Rightarrow> Return (r', submitted @ p)
      | Return (r', n, Some err) \<Rightarrow> Return (r', submitted))"
| "exec avail (OpGrow sz) (r, submitted) =
     (case Grow avail sz r of
        Diverge \<Rightarrow> Diverge
      | Panic \<Rightarrow> Panic
      | Return (r', err) \<Rightarrow> Return (r', submitted))"
| "exec avail OpBytes (r, submitted) =
     (case Bytes r of
        Diverge \<Rightarrow> Diverge
      | Panic \<Rightarrow> Panic
      | Return b \<Rightarrow> Return (r, submitted))"
| "exec avail OpReset (r, submitted) = Return (Reset r, [])"

fun run :: "(allocator \<times> op) list \<Rightarrow> RingBuffer \<times> byte list \<Rightarrow> (RingBuffer \<times> byte list) outcome" where
  "run [] s = Return s"
| "run ((avail, c) # cs) s =
     (case exec avail c s of
        Diverge \<Rightarrow> Diverge
      | Panic \<Rightarrow> Panic
      | Return s' \<Rightarrow> run cs s')"

text \<open>A session: construction, then a run on the fresh buffer with an empty log.\<close>

definition session :: "int \<Rightarrow> int \<Rightarrow> (allocator \<times> op) list \<Rightarrow> (RingBuffer \<times> byte list) outcome" where
  "session initialSize maxSize' cs =
     (case NewRingBuffer initialSize maxSize' of
        Diverge \<Rightarrow> Diverge
      | Panic \<Rightarrow> Panic
      | Return r \<Rightarrow> run cs (r, []))"

text \<open>
  The allocator that serves every request, the one that serves none, and a list of
  writes under one allocator.
\<close>

definition always :: allocator where
  "always n = True"

definition never :: allocator where
  "never n = False"

fun writes :: "allocator \<Rightarrow> byte list list \<Rightarrow> (allocator \<times> op) list" where
  "writes avail [] = []"
| "writes avail (p # ps) = (avail, OpWrite p) # writes avail ps"

text \<open>The bytes of a sequence, each as a slice of its own: the inputs of single-byte writes.\<close>

fun singles :: "byte list \<Rightarrow> byte list list" where
  "singles [] = []"
| "singles (b # bs) = [b] # singles bs"

text \<open>
  The ring-mode buffer of the repository's tests (\<^verbatim>\<open>ringbuffer_test.go\<close>, "starting
  from middle"): full, with the cursor at index 2.
\<close>

definition mid_ring :: RingBuffer where
  "mid_ring = \<lparr>buf = ''abcdefg'', pos = 2, written = 14, ringMode = True, maxSize = 7\<rparr>"

section \<open>Invariants\<close>

text \<open>
  The bound on the allocation: the buffer never holds more than \<open>M\<close> cells, and in
  ring mode it holds exactly \<open>M\<close>.
\<close>

definition cap_inv :: "int \<Rightarrow> RingBuffer \<Rightarrow> bool" where
  "cap_inv M r \<longleftrightarrow> maxSize r = M \<and> len (buf r) \<le> M \<and> (ringMode r \<longrightarrow> len (buf r) = M)"

text \<open>
  The log: between the buffer and the bytes submitted since construction or the last
  \<^verbatim>\<open>Reset\<close>. The cursor stays inside the slice, the counter is the length of the
  log in 64-bit arithmetic, and in the dynamic-array mode the content is the log.
  A write fits when the cursor plus its length cannot overflow an \<^verbatim>\<open>int\<close>.
\<close>

definition log_inv :: "int \<Rightarrow> RingBuffer \<Rightarrow> byte list \<Rightarrow> bool" where
  "log_inv M r submitted \<longleftrightarrow>
     cap_inv M r \<and> 0 \<le> pos r \<and> pos r \<le> len (buf r) \<and>
     written r = wrap64 (len submitted) \<and>
     (\<not> ringMode r \<longrightarrow> slice_to (buf r) (pos r) = Some submitted)"

definition op_fits :: "int \<Rightarrow> op \<Rightarrow> bool" where
  "op_fits M c = (case c of OpWrite p \<Rightarrow> M + len p \<le> max_int | _ \<Rightarrow> True)"

text \<open>
  The sizes from which the doubling loop cannot reach the largest \<^verbatim>\<open>int\<close>: the
  powers of two up to \<open>2\<^sup>6\<^sup>2\<close>, the value \<open>-2\<^sup>6\<^sup>3\<close> that doubling \<open>2\<^sup>6\<^sup>2\<close>
  wraps to, and 0, where the loop stays.
\<close>

definition stuck :: "int \<Rightarrow> bool" where
  "stuck n \<longleftrightarrow> n = 0 \<or> n = - (2 ^ 63) \<or> (\<exists>k\<le>62. n = 2 ^ k)"

text \<open>
  The state after \<open>k\<close> single-byte writes on a buffer constructed with no initial
  allocation: the cursor counts the writes until the buffer wraps, and the allocation
  is the least power of two that holds \<open>k\<close> bytes, or \<open>M\<close> once that power
  reaches \<open>M\<close>.
\<close>

definition doubling_inv :: "int \<Rightarrow> nat \<Rightarrow> RingBuffer \<Rightarrow> bool" where
  "doubling_inv M k r \<longleftrightarrow>
     maxSize r = M \<and> 0 \<le> pos r \<and> pos r \<le> len (buf r) \<and>
     (\<not> ringMode r \<longrightarrow> pos r = int k \<and> (0 < k \<longrightarrow> int k < M)) \<and>
     (ringMode r \<longrightarrow> 0 < k \<and> len (buf r) = M) \<and>
     (if k = 0 then len (buf r) = 0
      else \<exists>j\<le>k. len (buf r) = (if 2 ^ j < M then 2 ^ j else M) \<and>
                  int k \<le> 2 ^ j \<and> (0 < j \<longrightarrow> 2 ^ (j - 1) < int k))"

section \<open>Arithmetic and slices\<close>

lemma wrap64_id: "- (2 ^ 63) \<le> x \<Longrightarrow> x < 2 ^ 63 \<Longrightarrow> wrap64 x = x"
  by (simp add: wrap64_def)

lemma wrap64_range: "- (2 ^ 63) \<le> wrap64 x \<and> wrap64 x \<le> max_int"
proof -
  have "0 \<le> (x + 2 ^ 63) mod (2 ^ 64 :: int)" "(x + 2 ^ 63) mod (2 ^ 64 :: int) < 2 ^ 64"
    by simp_all
  then show ?thesis by (simp add: wrap64_def max_int_def)
qed

lemma wrap64_nonneg: "0 \<le> x \<Longrightarrow> x \<le> max_int \<Longrightarrow> wrap64 x = x"
  by (simp add: wrap64_def max_int_def)

lemma wrap64_0 [simp]: "wrap64 0 = 0"
  by (simp add: wrap64_def)

lemma wrap64_wrap64_add: "wrap64 (wrap64 a + b) = wrap64 (a + b)"
proof -
  have "(wrap64 a + b + 2 ^ 63) mod 2 ^ 64 = (a + b + 2 ^ 63) mod (2 ^ 64 :: int)"
    unfolding wrap64_def by (simp add: mod_simps algebra_simps)
  then show ?thesis by (simp add: wrap64_def)
qed

lemma len_nonneg [simp]: "0 \<le> len xs"
  by (simp add: len_def)

lemma len_replicate [simp]: "len (replicate n z) = int n"
  by (simp add: len_def)

lemma add64_log: "add64 (wrap64 (len l)) (len p) = wrap64 (len (l @ p))"
  by (simp add: add64_def wrap64_wrap64_add len_def)

lemma length_copy [simp]: "length (fst (copy dst src)) = length dst"
  by (simp add: copy_def Let_def)

lemma len_copy [simp]: "len (fst (copy dst src)) = len dst"
  by (simp add: len_def)

lemma snd_copy: "snd (copy dst src) = min (len dst) (len src)"
  by (simp add: copy_def Let_def len_def)

lemma snd_copy_bounds: "0 \<le> snd (copy dst src) \<and> snd (copy dst src) \<le> len dst"
  by (simp add: snd_copy)

section \<open>The doubling loop\<close>

text \<open>
  The loop leaves with a size that is at least the target. It ends for every target up
  to \<open>2\<^sup>6\<^sup>2\<close>. For the largest \<^verbatim>\<open>int\<close> as target it never ends from a power of
  two: the doubling wraps to \<open>-2\<^sup>6\<^sup>3\<close>, then to 0, and stays there.
\<close>

lemma grow_loop_ge:
  assumes "grow_loop n sz = Some m"
  shows "sz \<le> m \<and> n \<le> m"
proof (rule grow_loop.raw_induct [where P = "\<lambda>n sz m. sz \<le> m \<and> n \<le> m", OF _ assms])
  fix f :: "int \<Rightarrow> int \<Rightarrow> int option" and newSize sz' y
  assume IH: "\<And>a b y. f a b = Some y \<Longrightarrow> b \<le> y \<and> a \<le> y"
    and body: "(if newSize < sz' then f (mul64 newSize expansionFactor) sz' else Some newSize) = Some y"
  show "sz' \<le> y \<and> newSize \<le> y"
  proof (cases "newSize < sz'")
    case True
    with body have "f (mul64 newSize expansionFactor) sz' = Some y" by simp
    from IH [OF this] True show ?thesis by simp
  next
    case False
    with body show ?thesis by simp
  qed
qed

lemma grow_loop_stay: "sz \<le> n \<Longrightarrow> grow_loop n sz = Some n"
  by (simp add: grow_loop.simps)

lemma grow_loop_double:
  assumes "1 \<le> k" and "2 * k \<le> max_int"
  shows "grow_loop k (k + 1) = Some (2 * k)"
proof -
  have "mul64 k expansionFactor = 2 * k"
    using assms by (simp add: mul64_def expansionFactor_def wrap64_nonneg mult.commute)
  moreover have "grow_loop (2 * k) (k + 1) = Some (2 * k)"
    using assms(1) by (simp add: grow_loop_stay)
  ultimately show ?thesis
    by (subst grow_loop.simps) simp
qed

lemma grow_loop_terminates:
  assumes "1 \<le> n" and "sz \<le> 2 ^ 62"
  shows "\<exists>m. grow_loop n sz = Some m"
  using assms
proof (induction "nat (sz - n)" arbitrary: n rule: less_induct)
  case less
  show ?case
  proof (cases "n < sz")
    case False
    then show ?thesis by (simp add: grow_loop.simps)
  next
    case True
    with less.prems have "0 \<le> 2 * n" "2 * n \<le> max_int"
      by (simp_all add: max_int_def)
    then have d: "mul64 n expansionFactor = 2 * n"
      by (simp add: mul64_def expansionFactor_def wrap64_nonneg mult.commute)
    have "nat (sz - 2 * n) < nat (sz - n)" "1 \<le> 2 * n"
      using True less.prems(1) by simp_all
    from less.hyps [OF this(1,2) less.prems(2)] obtain m where "grow_loop (2 * n) sz = Some m"
      by blast
    with True d show ?thesis
      by (subst grow_loop.simps) simp
  qed
qed

lemma stuck_below: "stuck n \<Longrightarrow> n < max_int"
proof -
  assume "stuck n"
  then consider "n = 0" | "n = - (2 ^ 63)" | k where "k \<le> 62" "n = 2 ^ k"
    by (auto simp: stuck_def)
  then show ?thesis
  proof cases
    case 3
    have "(2::int) ^ k \<le> 2 ^ 62" using 3(1) by (intro power_increasing) simp_all
    with 3 show ?thesis by (simp add: max_int_def)
  qed (simp_all add: max_int_def)
qed

lemma stuck_step: "stuck n \<Longrightarrow> stuck (mul64 n expansionFactor)"
proof -
  assume "stuck n"
  then consider "n = 0" | "n = - (2 ^ 63)" | k where "k < 62" "n = 2 ^ k" | "n = 2 ^ 62"
    by (auto simp: stuck_def le_less)
  then show ?thesis
  proof cases
    case 1
    then show ?thesis by (simp add: stuck_def mul64_def wrap64_def)
  next
    case 2
    then show ?thesis by (simp add: stuck_def mul64_def wrap64_def expansionFactor_def)
  next
    case 3
    have "(2::int) ^ Suc k \<le> 2 ^ 62" using 3(1) by (intro power_increasing) simp_all
    then have "wrap64 (2 ^ Suc k) = 2 ^ Suc k"
      by (intro wrap64_nonneg) (simp_all add: max_int_def)
    then have "mul64 n expansionFactor = 2 ^ Suc k"
      using 3(2) by (simp add: mul64_def expansionFactor_def mult.commute)
    moreover have "Suc k \<le> 62" using 3(1) by simp
    ultimately show ?thesis unfolding stuck_def by blast
  next
    case 4
    then show ?thesis by (simp add: stuck_def mul64_def wrap64_def expansionFactor_def)
  qed
qed

lemma grow_loop_stuck:
  assumes "stuck n"
  shows "grow_loop n max_int = None"
proof -
  have "\<not> (sz = max_int \<and> stuck n')" if "grow_loop n' sz = Some m" for n' sz m
  proof (rule grow_loop.raw_induct [where P = "\<lambda>n sz m. \<not> (sz = max_int \<and> stuck n)", OF _ that])
    fix f :: "int \<Rightarrow> int \<Rightarrow> int option" and newSize sz' y
    assume IH: "\<And>a b y. f a b = Some y \<Longrightarrow> \<not> (b = max_int \<and> stuck a)"
      and body: "(if newSize < sz' then f (mul64 newSize expansionFactor) sz' else Some newSize) = Some y"
    show "\<not> (sz' = max_int \<and> stuck newSize)"
    proof
      assume a: "sz' = max_int \<and> stuck newSize"
      with stuck_below have "newSize < sz'" by simp
      with body have "f (mul64 newSize expansionFactor) sz' = Some y" by simp
      from IH [OF this] a stuck_step show False by blast
    qed
  qed
  with assms show ?thesis by (cases "grow_loop n max_int") auto
qed

section \<open>Grow\<close>

text \<open>
  What \<^verbatim>\<open>Grow\<close> returns, and that \<^verbatim>\<open>Grow(math.MaxInt64)\<close> on a buffer of 0 or 1
  allocated bytes does not return.
\<close>

lemma Grow_Return:
  assumes "Grow avail sz r = Return (r', e)"
  obtains m where "grow_loop (if len (buf r) = 0 then 1 else len (buf r)) sz = Some m"
    and "e = Some ErrCantMakeSlice \<and> r' = r \<and>
           makeSlice avail (if m \<ge> maxSize r then maxSize r else m) = Inl ErrCantMakeSlice
         \<or> e = None \<and> 0 \<le> (if m \<ge> maxSize r then maxSize r else m) \<and>
           r' = r\<lparr>buf := fst (copy (replicate (nat (if m \<ge> maxSize r then maxSize r else m)) zero_byte) (buf r))\<rparr>"
  using assms
  by (auto simp: Grow_def Let_def makeSlice_def split: option.splits sum.splits if_splits)

lemma Grow_fields:
  assumes "Grow avail sz r = Return (r', e)"
  shows "pos r' = pos r \<and> written r' = written r \<and> ringMode r' = ringMode r \<and> maxSize r' = maxSize r"
  using assms by (elim Grow_Return) auto

lemma Grow_error_same:
  assumes "Grow avail sz r = Return (r', Some err)"
  shows "r' = r"
  using assms by (elim Grow_Return) auto


lemma Grow_ok:
  assumes "grow_loop (if len (buf r) = 0 then 1 else len (buf r)) sz = Some m"
    and "ns = (if m \<ge> maxSize r then maxSize r else m)"
    and "0 \<le> ns" and "avail ns"
  shows "Grow avail sz r = Return (r\<lparr>buf := fst (copy (replicate (nat ns) zero_byte) (buf r))\<rparr>, None)"
  using assms by (simp add: Grow_def Let_def makeSlice_def)

lemma Grow_len:
  assumes "Grow avail sz r = Return (r', None)" and "len (buf r) \<le> maxSize r"
  shows "len (buf r) \<le> len (buf r') \<and> len (buf r') \<le> maxSize r \<and>
         (len (buf r') < sz \<longrightarrow> len (buf r') = maxSize r)"
proof -
  from assms(1) obtain m where m: "grow_loop (if len (buf r) = 0 then 1 else len (buf r)) sz = Some m"
    and r': "0 \<le> (if m \<ge> maxSize r then maxSize r else m)"
      "r' = r\<lparr>buf := fst (copy (replicate (nat (if m \<ge> maxSize r then maxSize r else m)) zero_byte) (buf r))\<rparr>"
    by (elim Grow_Return) auto
  from grow_loop_ge [OF m] have ge: "sz \<le> m" "len (buf r) \<le> m"
    by (auto split: if_splits)
  have "len (buf r') = (if m \<ge> maxSize r then maxSize r else m)"
    using r' by (simp add: len_def)
  with ge assms(2) show ?thesis by (auto split: if_splits)
qed

lemma Grow_prefix:
  assumes "Grow avail sz r = Return (r', None)" and "len (buf r) \<le> maxSize r"
  shows "take (length (buf r)) (buf r') = buf r"
proof -
  from assms(1) obtain m where m: "grow_loop (if len (buf r) = 0 then 1 else len (buf r)) sz = Some m"
    and r': "0 \<le> (if m \<ge> maxSize r then maxSize r else m)"
      "r' = r\<lparr>buf := fst (copy (replicate (nat (if m \<ge> maxSize r then maxSize r else m)) zero_byte) (buf r))\<rparr>"
    by (elim Grow_Return) auto
  from grow_loop_ge [OF m] have "len (buf r) \<le> m"
    by (auto split: if_splits)
  with assms(2) have "length (buf r) \<le> nat (if m \<ge> maxSize r then maxSize r else m)"
    by (auto simp: len_def)
  then show ?thesis unfolding r' by (simp add: copy_def Let_def min_def)
qed

lemma Grow_max_int_diverges:
  assumes "len (buf r) \<le> 1"
  shows "Grow avail max_int r = Diverge"
proof -
  have "len (buf r) = 0 \<or> len (buf r) = 1"
    using assms len_nonneg [of "buf r"] by linarith
  then have "(if len (buf r) = 0 then 1 else len (buf r)) = 2 ^ 0" by auto
  then have "stuck (if len (buf r) = 0 then 1 else len (buf r))"
    unfolding stuck_def by blast
  from grow_loop_stuck [OF this] show ?thesis
    by (simp add: Grow_def Let_def)
qed

section \<open>The ring path\<close>

lemma writeRing_big:
  "len p > len (buf r) \<Longrightarrow>
   writeRing p r =
     (case slice_from p (sub64 (len p) (len (buf r))) of
        None \<Rightarrow> Panic
      | Some keep \<Rightarrow>
          Return (r\<lparr>buf := fst (copy (buf r) keep), pos := 0,
                    written := add64 (written r) (len p)\<rparr>, len p, None))"
  by (simp add: writeRing_def Let_def)

lemma writeRing_panic:
  "\<not> len p > len (buf r) \<Longrightarrow> slice_from (buf r) (pos r) = None \<Longrightarrow> writeRing p r = Panic"
  by (simp add: writeRing_def Let_def)

lemma writeRing_to_end:
  "\<not> len p > len (buf r) \<Longrightarrow> slice_from (buf r) (pos r) = Some dst \<Longrightarrow>
   \<not> len p > snd (copy dst p) \<Longrightarrow>
   writeRing p r =
     Return (r\<lparr>buf := take (nat (pos r)) (buf r) @ fst (copy dst p), pos := 0,
               written := add64 (written r) (len p)\<rparr>, len p, None)"
  by (simp add: writeRing_def Let_def split_beta)

lemma writeRing_around:
  "\<not> len p > len (buf r) \<Longrightarrow> slice_from (buf r) (pos r) = Some dst \<Longrightarrow>
   len p > snd (copy dst p) \<Longrightarrow>
   writeRing p r =
     (case slice_from p (snd (copy dst p)) of
        None \<Rightarrow> Panic
      | Some rest \<Rightarrow>
          Return (r\<lparr>buf := fst (copy (take (nat (pos r)) (buf r) @ fst (copy dst p)) rest),
                    pos := snd (copy (take (nat (pos r)) (buf r) @ fst (copy dst p)) rest),
                    written := add64 (written r) (len p)\<rparr>, len p, None))"
  by (simp add: writeRing_def Let_def split_beta split: option.splits)

lemma writeRing_fields:
  assumes "writeRing p r = Return (r', n, e)"
  shows "len (buf r') = len (buf r) \<and> maxSize r' = maxSize r \<and> ringMode r' = ringMode r \<and>
         e = None \<and> n = len p \<and> written r' = add64 (written r) (len p) \<and>
         0 \<le> pos r' \<and> pos r' \<le> len (buf r')"
proof (cases "len p > len (buf r)")
  case True
  show ?thesis
  proof (cases "slice_from p (sub64 (len p) (len (buf r)))")
    case None
    from assms show ?thesis unfolding writeRing_big [OF True] None by simp
  next
    case (Some keep)
    from assms have r': "r' = r\<lparr>buf := fst (copy (buf r) keep), pos := 0,
                    written := add64 (written r) (len p)\<rparr>" and ne: "n = len p" "e = None"
      unfolding writeRing_big [OF True] Some by auto
    show ?thesis unfolding r' ne by simp
  qed
next
  case False
  show ?thesis
  proof (cases "slice_from (buf r) (pos r)")
    case None
    from assms show ?thesis unfolding writeRing_panic [OF False None] by simp
  next
    case (Some dst)
    then have pos: "0 \<le> pos r" "pos r \<le> len (buf r)" and dst_eq: "dst = drop (nat (pos r)) (buf r)"
      by (auto simp: slice_from_def split: if_splits)
    have l1: "len (take (nat (pos r)) (buf r) @ fst (copy dst p)) = len (buf r)"
      using pos by (simp add: len_def dst_eq)
    show ?thesis
    proof (cases "len p > snd (copy dst p)")
      case True
      show ?thesis
      proof (cases "slice_from p (snd (copy dst p))")
        case None
        from assms show ?thesis
          unfolding writeRing_around [OF False Some True] None by simp
      next
        case (Some rest)
        from assms have r': "r' = r\<lparr>buf := fst (copy (take (nat (pos r)) (buf r) @ fst (copy dst p)) rest),
                    pos := snd (copy (take (nat (pos r)) (buf r) @ fst (copy dst p)) rest),
                    written := add64 (written r) (len p)\<rparr>" and ne: "n = len p" "e = None"
          unfolding writeRing_around [OF False \<open>slice_from (buf r) (pos r) = Some dst\<close> True] Some
          by auto
        from snd_copy_bounds [of "take (nat (pos r)) (buf r) @ fst (copy dst p)" rest] l1
        show ?thesis unfolding r' ne by simp
      qed
    next
      case c: False
      from assms have r': "r' = r\<lparr>buf := take (nat (pos r)) (buf r) @ fst (copy dst p), pos := 0,
               written := add64 (written r) (len p)\<rparr>" and ne: "n = len p" "e = None"
        unfolding writeRing_to_end [OF False Some c] by auto
      from l1 show ?thesis unfolding r' ne by simp
    qed
  qed
qed

lemma writeRing_not_Diverge: "writeRing p r \<noteq> Diverge"
  by (simp add: writeRing_def Let_def split_beta split: option.splits)

lemma writeRing_total:
  assumes "0 \<le> pos r" and "pos r \<le> len (buf r)" and "len p \<le> max_int"
  shows "\<exists>r'. writeRing p r = Return (r', len p, None)"
proof (cases "len p > len (buf r)")
  case True
  have "- (2 ^ 63) \<le> len p - len (buf r)" and "len p - len (buf r) < 2 ^ 63"
    using True assms(3) len_nonneg [of "buf r"] unfolding max_int_def by linarith+
  then have "sub64 (len p) (len (buf r)) = len p - len (buf r)"
    by (simp add: sub64_def wrap64_id)
  with True have "slice_from p (sub64 (len p) (len (buf r))) = Some (drop (nat (len p - len (buf r))) p)"
    by (simp add: slice_from_def)
  then show ?thesis by (simp add: writeRing_big [OF True])
next
  case False
  from assms have dst: "slice_from (buf r) (pos r) = Some (drop (nat (pos r)) (buf r))"
    by (simp add: slice_from_def)
  show ?thesis
  proof (cases "len p > snd (copy (drop (nat (pos r)) (buf r)) p)")
    case True
    have "slice_from p (snd (copy (drop (nat (pos r)) (buf r)) p))
            = Some (drop (nat (snd (copy (drop (nat (pos r)) (buf r)) p))) p)"
      using snd_copy_bounds [of "drop (nat (pos r)) (buf r)" p] True
      by (simp add: slice_from_def)
    then show ?thesis by (simp add: writeRing_around [OF False dst True])
  next
    case c: False
    show ?thesis by (simp add: writeRing_to_end [OF False dst c])
  qed
qed

section \<open>The dynamic-array path\<close>

lemma write_grown:
  "write avail p r =
     (case grown avail p r of
        Diverge \<Rightarrow> Diverge
      | Panic \<Rightarrow> Panic
      | Return (r1, Some err) \<Rightarrow> Return (r1, 0, Some err)
      | Return (r1, None) \<Rightarrow>
          if len (buf r1) \<ge> add64 (pos r1) (len p) then
            (case slice_from (buf r1) (pos r1) of
               None \<Rightarrow> Panic
             | Some dst \<Rightarrow>
                 Return ((if add64 (pos r1) (snd (copy dst p)) = maxSize r1
                          then r1\<lparr>buf := take (nat (pos r1)) (buf r1) @ fst (copy dst p),
                                 written := add64 (written r1) (snd (copy dst p)),
                                 pos := 0, ringMode := True\<rparr>
                          else r1\<lparr>buf := take (nat (pos r1)) (buf r1) @ fst (copy dst p),
                                 written := add64 (written r1) (snd (copy dst p)),
                                 pos := add64 (pos r1) (snd (copy dst p))\<rparr>),
                         snd (copy dst p), None))
          else writeRing p (r1\<lparr>ringMode := True\<rparr>))"
  by (simp add: write_def grown_def Let_def split_beta
      split: outcome.splits option.splits prod.splits)

lemma grown_Return:
  assumes "grown avail p r = Return (r1, e1)"
  shows "pos r1 = pos r \<and> written r1 = written r \<and> ringMode r1 = ringMode r \<and>
         maxSize r1 = maxSize r \<and> (e1 \<noteq> None \<longrightarrow> r1 = r)"
proof (cases "len (buf r) < add64 (pos r) (len p)")
  case True
  with assms have g: "Grow avail (add64 (pos r) (len p)) r = Return (r1, e1)"
    by (simp add: grown_def)
  from Grow_fields [OF g] Grow_error_same [of avail _ r r1] g show ?thesis by auto
next
  case False
  with assms show ?thesis by (simp add: grown_def)
qed

lemma grown_buf:
  assumes "grown avail p r = Return (r1, None)" and "len (buf r) \<le> maxSize r"
  shows "take (length (buf r)) (buf r1) = buf r \<and> len (buf r) \<le> len (buf r1)"
proof (cases "len (buf r) < add64 (pos r) (len p)")
  case True
  with assms have g: "Grow avail (add64 (pos r) (len p)) r = Return (r1, None)"
    by (simp add: grown_def)
  from Grow_prefix [OF g assms(2)] Grow_len [OF g assms(2)] show ?thesis by simp
next
  case False
  with assms show ?thesis by (simp add: grown_def)
qed



lemma write_fits_after_grown:
  assumes gr: "grown avail p r = Return (r1, None)"
    and pos: "0 \<le> pos r" "pos r \<le> len (buf r1)"
    and fit: "pos r + len p \<le> max_int"
    and room: "pos r + len p \<le> len (buf r1)"
  shows "\<exists>r'. write avail p r = Return (r', len p, None) \<and> len (buf r') = len (buf r1) \<and>
           maxSize r' = maxSize r \<and>
           (if pos r + len p = maxSize r then ringMode r' \<and> pos r' = 0
            else ringMode r' = ringMode r \<and> pos r' = pos r + len p)"
proof -
  from grown_Return [OF gr] have same: "pos r1 = pos r" "written r1 = written r"
    "ringMode r1 = ringMode r" "maxSize r1 = maxSize r" by simp_all
  have "0 \<le> pos r + len p"
    using pos(1) len_nonneg [of p] by linarith
  with fit have sz: "add64 (pos r) (len p) = pos r + len p"
    by (simp add: add64_def wrap64_nonneg)
  define dst where "dst = drop (nat (pos r1)) (buf r1)"
  have sl: "slice_from (buf r1) (pos r1) = Some dst"
    using pos same by (simp add: slice_from_def dst_def)
  have room_nat: "nat (pos r) + length p \<le> length (buf r1)"
    using room pos by (simp add: len_def)
  then have ldst: "length p \<le> length dst"
    using same by (simp add: dst_def)
  have k: "snd (copy dst p) = len p"
    using ldst by (simp add: snd_copy len_def)
  have total: "len (take (nat (pos r1)) (buf r1) @ fst (copy dst p)) = len (buf r1)"
    using room_nat same by (simp add: len_def dst_def)
  have step: "write avail p r =
            Return ((if add64 (pos r1) (snd (copy dst p)) = maxSize r1
                     then r1\<lparr>buf := take (nat (pos r1)) (buf r1) @ fst (copy dst p),
                            written := add64 (written r1) (snd (copy dst p)),
                            pos := 0, ringMode := True\<rparr>
                     else r1\<lparr>buf := take (nat (pos r1)) (buf r1) @ fst (copy dst p),
                            written := add64 (written r1) (snd (copy dst p)),
                            pos := add64 (pos r1) (snd (copy dst p))\<rparr>),
                    snd (copy dst p), None)"
    using gr room sl same sz by (simp add: write_grown)
  show ?thesis
    unfolding step k using total same sz by simp
qed

lemma write_overflows_after_grown:
  assumes gr: "grown avail p r = Return (r1, None)"
    and pos: "0 \<le> pos r" "pos r \<le> len (buf r1)"
    and fit: "pos r + len p \<le> max_int"
    and over: "len (buf r1) < pos r + len p"
  shows "\<exists>r'. write avail p r = Return (r', len p, None) \<and> len (buf r') = len (buf r1) \<and>
           maxSize r' = maxSize r \<and> ringMode r' \<and> 0 \<le> pos r' \<and> pos r' \<le> len (buf r')"
proof -
  from grown_Return [OF gr] have same: "pos r1 = pos r" "written r1 = written r"
    "ringMode r1 = ringMode r" "maxSize r1 = maxSize r" by simp_all
  have "0 \<le> pos r + len p"
    using pos(1) len_nonneg [of p] by linarith
  with fit have sz: "add64 (pos r) (len p) = pos r + len p"
    by (simp add: add64_def wrap64_nonneg)
  have w: "write avail p r = writeRing p (r1\<lparr>ringMode := True\<rparr>)"
    using gr over same sz by (simp add: write_grown)
  have "len p \<le> max_int"
    using fit pos(1) by linarith
  with writeRing_total [of "r1\<lparr>ringMode := True\<rparr>" p] pos same
  obtain r' where r': "writeRing p (r1\<lparr>ringMode := True\<rparr>) = Return (r', len p, None)"
    by auto
  from writeRing_fields [OF r'] w r' same show ?thesis by simp
qed

section \<open>The capacity invariant\<close>

lemma Grow_cap_inv:
  assumes "cap_inv M r" and "Grow avail sz r = Return (r', e)"
  shows "cap_inv M r'"
proof (cases e)
  case None
  with assms Grow_len [of avail sz r r'] Grow_fields [OF assms(2)]
  show ?thesis by (auto simp: cap_inv_def)
next
  case (Some err)
  with assms Grow_error_same show ?thesis by blast
qed

lemma write_cap_inv:
  assumes "cap_inv M r" and "write avail p r = Return (r', n, e)"
  shows "cap_inv M r'"
proof -
  define sz where "sz = add64 (pos r) (len p)"
  define g where "g = (if len (buf r) < sz then Grow avail sz r else Return (r, None))"
  from assms(2) obtain r1 e1 where g: "g = Return (r1, e1)"
    unfolding write_def g_def sz_def Let_def by (auto split: outcome.splits)
  have inv1: "cap_inv M r1" and same: "pos r1 = pos r"
    using g assms(1) Grow_cap_inv [of M r avail sz r1 e1] Grow_fields [of avail sz r r1 e1]
    by (auto simp: g_def split: if_splits)
  have small: "e1 = None \<Longrightarrow> len (buf r1) < sz \<Longrightarrow> len (buf r1) = M"
    using g assms(1) Grow_len [of avail sz r r1]
    by (auto simp: g_def cap_inv_def split: if_splits)
  show ?thesis
  proof (cases e1)
    case (Some err)
    with assms(2) g have "r' = r1"
      unfolding write_def g_def sz_def Let_def by simp
    with inv1 show ?thesis by simp
  next
    case None
    show ?thesis
    proof (cases "len (buf r1) \<ge> sz")
      case True
      with None assms(2) g same obtain dst where
        dst: "slice_from (buf r1) (pos r1) = Some dst"
        and r': "r' = (let (dst', n) = copy dst p;
                         r2 = r1\<lparr>buf := take (nat (pos r1)) (buf r1) @ dst'\<rparr>;
                         r3 = r2\<lparr>written := add64 (written r2) n\<rparr>;
                         r4 = r3\<lparr>pos := add64 (pos r3) n\<rparr>
                     in (if pos r4 = maxSize r4
                               then r4\<lparr>ringMode := True, pos := 0\<rparr> else r4))"
        unfolding write_def g_def [symmetric] sz_def [symmetric] Let_def
        by (auto simp: sz_def split: option.splits prod.splits)
      obtain dst' k where c: "copy dst p = (dst', k)" by (cases "copy dst p")
      from dst have pos: "0 \<le> pos r1" "pos r1 \<le> len (buf r1)" and dst_eq: "dst = drop (nat (pos r1)) (buf r1)"
        by (auto simp: slice_from_def split: if_splits)
      from c have k: "k = min (len dst) (len p)" and ldst: "length dst' = length dst"
        using snd_copy [of dst p] length_copy [of dst p] by simp_all
      have len_new: "len (take (nat (pos r1)) (buf r1) @ dst') = len (buf r1)"
        using pos ldst dst_eq by (simp add: len_def)
      have sum_le: "0 \<le> pos r1 + k" "pos r1 + k \<le> len (buf r1)"
        using pos k dst_eq by (auto simp: len_def)
      have full: "add64 (pos r1) k = M \<Longrightarrow> len (buf r1) = M"
      proof -
        assume eq: "add64 (pos r1) k = M"
        show ?thesis
        proof (cases "pos r1 + k < 2 ^ 63")
          case True
          with sum_le have "add64 (pos r1) k = pos r1 + k"
            by (simp add: add64_def wrap64_id)
          with eq sum_le inv1 show ?thesis by (simp add: cap_inv_def)
        next
          case False
          with sum_le inv1 have "M \<ge> 2 ^ 63" by (simp add: cap_inv_def)
          moreover have "add64 (pos r1) k \<le> max_int"
            using wrap64_range by (simp add: add64_def)
          ultimately show ?thesis using eq by (simp add: max_int_def)
        qed
      qed
      show ?thesis
        using r' c inv1 len_new full
        by (auto simp: cap_inv_def Let_def)
    next
      case False
      with None assms(2) g same have wr: "writeRing p (r1\<lparr>ringMode := True\<rparr>) = Return (r', n, e)"
        unfolding write_def g_def [symmetric] sz_def [symmetric] Let_def
        by (auto simp: sz_def)
      from False None small have "len (buf r1) = M" by simp
      with writeRing_fields [OF wr] inv1 show ?thesis
        by (simp add: cap_inv_def)
    qed
  qed
qed

lemma Write_cap_inv:
  assumes "cap_inv M r" and "Write avail p r = Return (r', n, e)"
  shows "cap_inv M r'"
proof (cases "ringMode r")
  case True
  with assms(2) have "writeRing p r = Return (r', n, e)" by (simp add: Write_def)
  from writeRing_fields [OF this] assms(1) show ?thesis by (simp add: cap_inv_def)
next
  case False
  with assms(2) have "write avail p r = Return (r', n, e)" by (simp add: Write_def)
  with assms(1) show ?thesis by (rule write_cap_inv)
qed

lemma Reset_cap_inv: "cap_inv M r \<Longrightarrow> cap_inv M (Reset r)"
  by (simp add: cap_inv_def Reset_def)

lemma exec_cap_inv:
  assumes "cap_inv M r" and "exec avail c (r, l) = Return (r', l')"
  shows "cap_inv M r'"
proof (cases c)
  case (OpWrite p)
  with assms(2) obtain n e where "Write avail p r = Return (r', n, e)"
    by (auto split: outcome.splits option.splits)
  with assms(1) show ?thesis by (rule Write_cap_inv)
next
  case (OpGrow sz)
  with assms(2) obtain e where "Grow avail sz r = Return (r', e)"
    by (auto split: outcome.splits)
  with assms(1) show ?thesis by (rule Grow_cap_inv)
next
  case OpBytes
  with assms show ?thesis by (auto split: outcome.splits)
next
  case OpReset
  with assms show ?thesis by (auto simp: Reset_cap_inv)
qed

lemma run_cap_inv:
  "cap_inv M r \<Longrightarrow> run cs (r, l) = Return (r', l') \<Longrightarrow> cap_inv M r'"
proof (induction cs arbitrary: r l)
  case Nil
  then show ?case by simp
next
  case (Cons ac cs)
  obtain avail c where ac: "ac = (avail, c)" by (cases ac)
  with Cons.prems(2) obtain r1 l1 where
    step: "exec avail c (r, l) = Return (r1, l1)" and rest: "run cs (r1, l1) = Return (r', l')"
    by (auto split: outcome.splits)
  from exec_cap_inv [OF Cons.prems(1) step] have "cap_inv M r1" .
  from Cons.IH [OF this rest] show ?case .
qed

lemma session_Return:
  assumes "session i M cs = Return s"
  obtains r0 where "NewRingBuffer i M = Return r0" and "run cs (r0, []) = Return s"
  using assms by (auto simp: session_def split: outcome.splits)

lemma NewRingBuffer_cap_inv:
  "NewRingBuffer i M = Return r0 \<Longrightarrow> cap_inv M r0"
  by (auto simp: NewRingBuffer_def cap_inv_def Let_def len_def split: if_splits)

section \<open>The log invariant\<close>

lemma write_log_inv:
  assumes inv: "log_inv M r l" and nr: "\<not> ringMode r"
    and fit: "pos r + len p \<le> max_int"
    and w: "write avail p r = Return (r', n, e)"
  shows "(e = None \<longrightarrow> n = len p \<and> log_inv M r' (l @ p)) \<and> (e \<noteq> None \<longrightarrow> r' = r \<and> n = 0)"
proof -
  from inv have cap: "cap_inv M r" and pos: "0 \<le> pos r" "pos r \<le> len (buf r)"
    and wr: "written r = wrap64 (len l)"
    by (simp_all add: log_inv_def)
  from inv nr have content: "take (nat (pos r)) (buf r) = l"
    by (auto simp: log_inv_def slice_to_def split: if_splits)
  from cap have capM: "len (buf r) \<le> maxSize r" "maxSize r = M" by (simp_all add: cap_inv_def)
  from write_cap_inv [OF cap w] have cap': "cap_inv M r'" .
  have "0 \<le> pos r + len p"
    using pos len_nonneg [of p] by linarith
  with fit have sz: "add64 (pos r) (len p) = pos r + len p"
    by (simp add: add64_def wrap64_nonneg)
  show ?thesis
  proof (cases "grown avail p r")
    case Diverge
    with w show ?thesis by (simp add: write_grown)
  next
    case Panic
    with w show ?thesis by (simp add: write_grown)
  next
    case (Return g)
    obtain r1 e1 where g: "g = (r1, e1)" by (cases g)
    from Return g have gr: "grown avail p r = Return (r1, e1)" by simp
    from grown_Return [OF gr] have same: "pos r1 = pos r" "written r1 = written r"
      "ringMode r1 = ringMode r" "maxSize r1 = maxSize r" by simp_all
    show ?thesis
    proof (cases e1)
      case (Some err1)
      with w gr grown_Return [OF gr] show ?thesis by (auto simp: write_grown)
    next
      case None
      from grown_buf [OF gr [unfolded None] capM(1)]
      have pre: "take (length (buf r)) (buf r1) = buf r" and grow: "len (buf r) \<le> len (buf r1)"
        by simp_all
      show ?thesis
      proof (cases "len (buf r1) \<ge> add64 (pos r1) (len p)")
        case False
        with w gr None have wr': "writeRing p (r1\<lparr>ringMode := True\<rparr>) = Return (r', n, e)"
          by (simp add: write_grown)
        from writeRing_fields [OF wr'] cap' wr same show ?thesis
          by (simp add: log_inv_def add64_log)
      next
        case True
        define dst where "dst = drop (nat (pos r1)) (buf r1)"
        have sl: "slice_from (buf r1) (pos r1) = Some dst"
          using pos grow same by (simp add: slice_from_def dst_def)
        have room: "pos r + len p \<le> len (buf r1)"
          using True same sz by simp
        have room_nat: "nat (pos r) + length p \<le> length (buf r1)"
          using room pos by (simp add: len_def)
        then have ldst: "length p \<le> length dst"
          using same by (simp add: dst_def)
        have k: "snd (copy dst p) = len p"
          using ldst by (simp add: snd_copy len_def)
        have c: "fst (copy dst p) = p @ drop (length p) dst"
          using ldst by (simp add: copy_def Let_def min_def)
        have keep: "take (nat (pos r1)) (buf r1) = l"
        proof -
          have "nat (pos r) \<le> length (buf r)"
            using pos by (simp add: len_def)
          then have "take (nat (pos r)) (take (length (buf r)) (buf r1)) = take (nat (pos r)) (buf r1)"
            by (simp add: min_def)
          with pre content same show ?thesis by simp
        qed
        have lenl: "len l = pos r"
          using content pos by (auto simp: len_def)
        have step: "write avail p r =
            Return ((if add64 (pos r1) (snd (copy dst p)) = maxSize r1
                     then r1\<lparr>buf := take (nat (pos r1)) (buf r1) @ fst (copy dst p),
                            written := add64 (written r1) (snd (copy dst p)),
                            pos := 0, ringMode := True\<rparr>
                     else r1\<lparr>buf := take (nat (pos r1)) (buf r1) @ fst (copy dst p),
                            written := add64 (written r1) (snd (copy dst p)),
                            pos := add64 (pos r1) (snd (copy dst p))\<rparr>),
                    snd (copy dst p), None)"
          using gr None True sl by (simp add: write_grown)
        have "add64 (pos r1) (len p) = pos r + len p" "add64 (written r1) (len p) = wrap64 (len (l @ p))"
          "maxSize r1 = M"
          using same sz wr add64_log capM(2) by simp_all
        with step have step2: "write avail p r =
            Return ((if pos r + len p = M
                 then r1\<lparr>buf := l @ p @ drop (length p) dst,
                        written := wrap64 (len (l @ p)), pos := 0, ringMode := True\<rparr>
                 else r1\<lparr>buf := l @ p @ drop (length p) dst,
                        written := wrap64 (len (l @ p)), pos := pos r + len p\<rparr>), len p, None)"
          by (simp add: k c keep)
        from w have res:
          "r' = (if pos r + len p = M
                 then r1\<lparr>buf := l @ p @ drop (length p) dst,
                        written := wrap64 (len (l @ p)), pos := 0, ringMode := True\<rparr>
                 else r1\<lparr>buf := l @ p @ drop (length p) dst,
                        written := wrap64 (len (l @ p)), pos := pos r + len p\<rparr>)"
          and ne: "n = len p" "e = None"
          unfolding step2 by auto
        have total: "len (l @ p @ drop (length p) dst) = len (buf r1)"
          using room_nat pos same lenl by (simp add: len_def dst_def)
        have "log_inv M r' (l @ p)"
        proof (cases "pos r + len p = M")
          case True
          with res cap' total show ?thesis by (simp add: log_inv_def)
        next
          case False
          with res cap' total pos room nr same lenl show ?thesis
            by (simp add: log_inv_def slice_to_def len_def)
        qed
        with ne show ?thesis by simp
      qed
    qed
  qed
qed

lemma Write_log_inv:
  assumes inv: "log_inv M r l" and fit: "M + len p \<le> max_int"
    and w: "Write avail p r = Return (r', n, e)"
  shows "(e = None \<longrightarrow> n = len p \<and> log_inv M r' (l @ p)) \<and> (e \<noteq> None \<longrightarrow> r' = r \<and> n = 0)"
proof (cases "ringMode r")
  case True
  with w have wr: "writeRing p r = Return (r', n, e)" by (simp add: Write_def)
  from Write_cap_inv [OF _ w] inv have "cap_inv M r'" by (simp add: log_inv_def)
  with writeRing_fields [OF wr] inv True show ?thesis
    by (simp add: log_inv_def add64_log)
next
  case False
  with w have wr: "write avail p r = Return (r', n, e)" by (simp add: Write_def)
  from inv have "pos r \<le> M" by (simp add: log_inv_def cap_inv_def)
  with fit have "pos r + len p \<le> max_int" by simp
  from write_log_inv [OF inv False this wr] show ?thesis .
qed

lemma Grow_log_inv:
  assumes inv: "log_inv M r l" and g: "Grow avail sz r = Return (r', e)"
  shows "log_inv M r' l"
proof (cases e)
  case (Some err)
  with g Grow_error_same inv show ?thesis by blast
next
  case None
  from inv have cap: "cap_inv M r" and pos: "0 \<le> pos r" "pos r \<le> len (buf r)"
    by (simp_all add: log_inv_def)
  then have capM: "len (buf r) \<le> maxSize r" by (simp add: cap_inv_def)
  from g None have g': "Grow avail sz r = Return (r', None)" by simp
  from Grow_prefix [OF g' capM] have pre: "take (length (buf r)) (buf r') = buf r" .
  from Grow_len [OF g' capM] have grow: "len (buf r) \<le> len (buf r')" by simp
  have "nat (pos r) \<le> length (buf r)"
    using pos by (simp add: len_def)
  then have "take (nat (pos r)) (take (length (buf r)) (buf r')) = take (nat (pos r)) (buf r')"
    by (simp add: min_def)
  with pre have keep: "take (nat (pos r)) (buf r') = take (nat (pos r)) (buf r)" by simp
  from Grow_cap_inv [OF cap g] Grow_fields [OF g] inv pos grow keep show ?thesis
    by (auto simp: log_inv_def slice_to_def split: if_splits)
qed

lemma Reset_log_inv: "log_inv M r l \<Longrightarrow> log_inv M (Reset r) []"
  by (simp add: log_inv_def cap_inv_def Reset_def slice_to_def len_def)

lemma exec_log_inv:
  assumes "log_inv M r l" and "op_fits M c" and "exec avail c (r, l) = Return (r', l')"
  shows "log_inv M r' l'"
proof (cases c)
  case (OpWrite p)
  with assms(3) obtain n e where w: "Write avail p r = Return (r', n, e)"
    and l': "l' = (if e = None then l @ p else l)"
    by (auto split: outcome.splits option.splits)
  from OpWrite assms(2) have "M + len p \<le> max_int" by (simp add: op_fits_def)
  from Write_log_inv [OF assms(1) this w] l' assms(1) show ?thesis by auto
next
  case (OpGrow sz)
  with assms(3) obtain e where "Grow avail sz r = Return (r', e)" and "l' = l"
    by (auto split: outcome.splits)
  with assms(1) Grow_log_inv show ?thesis by blast
next
  case OpBytes
  with assms show ?thesis by (auto split: outcome.splits)
next
  case OpReset
  with assms show ?thesis by (auto simp: Reset_log_inv)
qed

lemma run_log_inv:
  "log_inv M r l \<Longrightarrow> \<forall>ac \<in> set cs. op_fits M (snd ac) \<Longrightarrow>
   run cs (r, l) = Return (r', l') \<Longrightarrow> log_inv M r' l'"
proof (induction cs arbitrary: r l)
  case Nil
  then show ?case by simp
next
  case (Cons ac cs)
  obtain avail c where ac: "ac = (avail, c)" by (cases ac)
  with Cons.prems(3) obtain r1 l1 where
    step: "exec avail c (r, l) = Return (r1, l1)" and rest: "run cs (r1, l1) = Return (r', l')"
    by (auto split: outcome.splits)
  from Cons.prems(2) ac have "op_fits M c" and fits: "\<forall>ac \<in> set cs. op_fits M (snd ac)"
    by simp_all
  from exec_log_inv [OF Cons.prems(1) this(1) step] have "log_inv M r1 l1" .
  from Cons.IH [OF this fits rest] show ?case .
qed

lemma NewRingBuffer_log_inv:
  "NewRingBuffer i M = Return r0 \<Longrightarrow> log_inv M r0 []"
  by (auto simp: NewRingBuffer_def log_inv_def cap_inv_def Let_def len_def slice_to_def split: if_splits)

lemma session_log_inv:
  assumes "session i M cs = Return (r, l)" and "\<forall>ac \<in> set cs. op_fits M (snd ac)"
  shows "log_inv M r l"
proof -
  from assms(1) obtain r0 where "NewRingBuffer i M = Return r0"
    and "run cs (r0, []) = Return (r, l)"
    by (rule session_Return)
  with assms(2) show ?thesis
    using NewRingBuffer_log_inv run_log_inv by blast
qed

text \<open>In ring mode \<^verbatim>\<open>Bytes()\<close> returns, and what it returns has the maximum length.\<close>

lemma ring_bytes_length:
  assumes "session initialSize M cs = Return (r, submitted)"
    and "\<forall>ac \<in> set cs. op_fits M (snd ac)"
    and "ringMode r"
  shows "\<exists>b. Bytes r = Return b \<and> len b = M"
proof -
  from session_log_inv [OF assms(1,2)] assms(3)
  have pos: "0 \<le> pos r" "pos r \<le> len (buf r)" and full: "len (buf r) = M"
    by (simp_all add: log_inv_def cap_inv_def)
  then have "Bytes r = Return (drop (nat (pos r)) (buf r) @ take (nat (pos r)) (buf r))"
    using assms(3) by (simp add: Bytes_def slice_from_def slice_to_def)
  moreover have "len (drop (nat (pos r)) (buf r) @ take (nat (pos r)) (buf r)) = M"
    using pos full by (simp add: len_def)
  ultimately show ?thesis by blast
qed

section \<open>Single-byte writes\<close>

lemma doubling_step_ring:
  assumes inv: "doubling_inv M k r" and ring: "ringMode r"
  shows "\<exists>r'. Write avail [b] r = Return (r', 1, None) \<and> doubling_inv M (Suc k) r'"
proof -
  from inv ring have pos: "0 \<le> pos r" "pos r \<le> len (buf r)" and k: "0 < k"
    and full: "len (buf r) = M" and mx: "maxSize r = M"
    by (simp_all add: doubling_inv_def)
  from inv k obtain j where j: "j \<le> k" "M = (if 2 ^ j < M then 2 ^ j else M)"
    "int k \<le> 2 ^ j" "0 < j \<longrightarrow> 2 ^ (j - 1) < int k"
    unfolding doubling_inv_def full by auto
  from j(2) have big: "M \<le> 2 ^ j" by (auto split: if_splits)
  have "len [b] \<le> max_int" by (simp add: len_def max_int_def)
  from writeRing_total [OF pos this] obtain r' where
    w: "writeRing [b] r = Return (r', len [b], None)" by blast
  from writeRing_fields [OF w] ring full mx
  have f: "len (buf r') = M" "maxSize r' = M" "ringMode r'" "0 \<le> pos r'" "pos r' \<le> len (buf r')"
    by simp_all
  have "\<exists>j'\<le>Suc k. M = (if 2 ^ j' < M then 2 ^ j' else M) \<and>
          int (Suc k) \<le> 2 ^ j' \<and> (0 < j' \<longrightarrow> 2 ^ (j' - 1) < int (Suc k))"
  proof (cases "int k < 2 ^ j")
    case True
    have "j \<le> Suc k" using j(1) by simp
    moreover have "M = (if 2 ^ j < M then 2 ^ j else M)" using big by simp
    moreover have "int (Suc k) \<le> 2 ^ j" using True by linarith
    moreover have "0 < j \<longrightarrow> 2 ^ (j - 1) < int (Suc k)"
    proof
      assume "0 < j"
      with j(4) have "2 ^ (j - 1) < int k" by blast
      then show "2 ^ (j - 1) < int (Suc k)" by linarith
    qed
    ultimately show ?thesis by blast
  next
    case False
    with j(3) have eq: "int k = 2 ^ j" by linarith
    have p: "(2::int) ^ Suc j = 2 * 2 ^ j" by simp
    have "Suc j \<le> Suc k" using j(1) by simp
    moreover have "\<not> 2 ^ Suc j < M"
      using big zero_less_power [of "2::int" j] unfolding p by linarith
    then have "M = (if 2 ^ Suc j < M then 2 ^ Suc j else M)" by simp
    moreover have "int (Suc k) \<le> 2 ^ Suc j" using eq k unfolding p by linarith
    moreover have "0 < Suc j \<longrightarrow> 2 ^ (Suc j - 1) < int (Suc k)" using eq by simp
    ultimately show ?thesis by blast
  qed
  with f w ring show ?thesis
    by (simp add: Write_def doubling_inv_def len_def)
qed

lemma doubling_step_first:
  assumes M: "0 \<le> M" and av: "\<forall>n. 0 \<le> n \<and> n \<le> M \<longrightarrow> avail n"
    and inv: "doubling_inv M 0 r"
  shows "\<exists>r'. Write avail [b] r = Return (r', 1, None) \<and> doubling_inv M (Suc 0) r'"
proof -
  from inv have nr: "\<not> ringMode r" and pos: "pos r = 0" and empty: "len (buf r) = 0"
    and mx: "maxSize r = M"
    by (auto simp: doubling_inv_def)
  define ns where "ns = (if 1 \<ge> M then M else 1)"
  have ns: "0 \<le> ns" "ns \<le> M" using M by (auto simp: ns_def)
  with av have an: "avail ns" by simp
  have gl: "grow_loop (if len (buf r) = 0 then 1 else len (buf r)) 1 = Some 1"
    using empty by (simp add: grow_loop_stay)
  have nsd: "ns = (if 1 \<ge> maxSize r then maxSize r else 1)"
    using mx by (simp add: ns_def)
  from Grow_ok [of r 1 1 ns avail, OF gl nsd ns(1) an]
  have g: "Grow avail 1 r = Return (r\<lparr>buf := fst (copy (replicate (nat ns) zero_byte) (buf r))\<rparr>, None)" .
  define r1 where "r1 = r\<lparr>buf := fst (copy (replicate (nat ns) zero_byte) (buf r))\<rparr>"
  have l1: "len (buf r1) = ns" using ns by (simp add: r1_def)
  have one: "add64 0 1 = 1" by (simp add: add64_def wrap64_def)
  have gr: "grown avail [b] r = Return (r1, None)"
    using g empty pos one by (simp add: grown_def r1_def len_def)
  have fit: "pos r + len [b] \<le> max_int" using pos by (simp add: len_def max_int_def)
  show ?thesis
  proof (cases "1 \<le> M")
    case True
    then have "ns = 1" by (auto simp: ns_def)
    with l1 pos have "0 \<le> pos r" "pos r \<le> len (buf r1)" "pos r + len [b] \<le> len (buf r1)"
      by (simp_all add: len_def)
    from write_fits_after_grown [OF gr this(1,2) fit this(3)] obtain r' where
      r': "write avail [b] r = Return (r', len [b], None)" "len (buf r') = len (buf r1)"
        "maxSize r' = maxSize r"
        "if pos r + len [b] = maxSize r then ringMode r' \<and> pos r' = 0
         else ringMode r' = ringMode r \<and> pos r' = pos r + len [b]"
      by blast
    have "len (buf r') = (if 2 ^ 0 < M then 2 ^ 0 else M) \<and> int (Suc 0) \<le> 2 ^ 0 \<and>
          (0 < (0::nat) \<longrightarrow> 2 ^ (0 - 1) < int (Suc 0))"
      using r'(2) l1 \<open>ns = 1\<close> True by auto
    then have "\<exists>j\<le>Suc 0. len (buf r') = (if 2 ^ j < M then 2 ^ j else M) \<and>
          int (Suc 0) \<le> 2 ^ j \<and> (0 < j \<longrightarrow> 2 ^ (j - 1) < int (Suc 0))"
      by blast
    then have "doubling_inv M (Suc 0) r'"
      using r'(2-4) l1 \<open>ns = 1\<close> mx pos nr True
      by (auto simp: doubling_inv_def len_def split: if_splits)
    with r'(1) nr show ?thesis by (simp add: Write_def len_def)
  next
    case False
    with M have "M = 0" by simp
    then have "ns = 0" by (simp add: ns_def)
    with l1 pos have "0 \<le> pos r" "pos r \<le> len (buf r1)" "len (buf r1) < pos r + len [b]"
      by (simp_all add: len_def)
    from write_overflows_after_grown [OF gr this(1,2) fit this(3)] obtain r' where
      r': "write avail [b] r = Return (r', len [b], None)" "len (buf r') = len (buf r1)"
        "maxSize r' = maxSize r" "ringMode r'" "0 \<le> pos r'" "pos r' \<le> len (buf r')"
      by blast
    have "len (buf r') = (if 2 ^ 0 < M then 2 ^ 0 else M) \<and> int (Suc 0) \<le> 2 ^ 0 \<and>
          (0 < (0::nat) \<longrightarrow> 2 ^ (0 - 1) < int (Suc 0))"
      using r'(2) l1 \<open>ns = 0\<close> \<open>M = 0\<close> by auto
    then have "\<exists>j\<le>Suc 0. len (buf r') = (if 2 ^ j < M then 2 ^ j else M) \<and>
          int (Suc 0) \<le> 2 ^ j \<and> (0 < j \<longrightarrow> 2 ^ (j - 1) < int (Suc 0))"
      by blast
    then have "doubling_inv M (Suc 0) r'"
      using r'(2-6) l1 \<open>ns = 0\<close> \<open>M = 0\<close> mx
      by (auto simp: doubling_inv_def)
    with r'(1) nr show ?thesis by (simp add: Write_def len_def)
  qed
qed

lemma doubling_step_growing:
  assumes M: "M \<le> 2 ^ 62" and av: "\<forall>n. 0 \<le> n \<and> n \<le> M \<longrightarrow> avail n"
    and inv: "doubling_inv M k r" and nr: "\<not> ringMode r" and k: "0 < k"
  shows "\<exists>r'. Write avail [b] r = Return (r', 1, None) \<and> doubling_inv M (Suc k) r'"
proof -
  from inv nr k have pos: "pos r = int k" and below: "int k < M" and le: "int k \<le> len (buf r)"
    and mx: "maxSize r = M"
    by (auto simp: doubling_inv_def)
  from inv k obtain j where j: "j \<le> k" "len (buf r) = (if 2 ^ j < M then 2 ^ j else M)"
    "int k \<le> 2 ^ j" "0 < j \<longrightarrow> 2 ^ (j - 1) < int k"
    unfolding doubling_inv_def by auto
  have sz: "add64 (pos r) (len [b]) = int k + 1"
    using pos below M by (simp add: add64_def len_def wrap64_nonneg max_int_def)
  have fit: "pos r + len [b] \<le> max_int"
    using pos below M by (simp add: len_def max_int_def)
  have lower: "0 < j \<longrightarrow> 2 ^ (j - 1) < int (Suc k)"
  proof
    assume "0 < j"
    with j(4) have "2 ^ (j - 1) < int k" by blast
    then show "2 ^ (j - 1) < int (Suc k)" by linarith
  qed
  have finish: "\<exists>r'. Write avail [b] r = Return (r', 1, None) \<and> doubling_inv M (Suc k) r'"
    if gr: "grown avail [b] r = Return (r1, None)"
      and room: "int k + 1 \<le> len (buf r1)"
      and ex: "\<exists>j'\<le>Suc k. len (buf r1) = (if 2 ^ j' < M then 2 ^ j' else M) \<and>
                 int (Suc k) \<le> 2 ^ j' \<and> (0 < j' \<longrightarrow> 2 ^ (j' - 1) < int (Suc k))"
      and top: "len (buf r1) \<le> M"
    for r1
  proof -
    have p: "0 \<le> pos r" "pos r \<le> len (buf r1)" "pos r + len [b] \<le> len (buf r1)"
      using pos room by (simp_all add: len_def)
    from write_fits_after_grown [OF gr p(1,2) fit p(3)] obtain r' where
      r': "write avail [b] r = Return (r', len [b], None)" "len (buf r') = len (buf r1)"
        "maxSize r' = maxSize r"
        "if pos r + len [b] = maxSize r then ringMode r' \<and> pos r' = 0
         else ringMode r' = ringMode r \<and> pos r' = pos r + len [b]"
      by blast
    have "doubling_inv M (Suc k) r'"
    proof (cases "int k + 1 = M")
      case True
      with r'(4) pos mx have "ringMode r'" "pos r' = 0" by (simp_all add: len_def)
      moreover from True room top r'(2) have "len (buf r') = M" by linarith
      moreover from True have "0 \<le> M" by linarith
      ultimately show ?thesis
        using ex r'(2,3) mx by (simp add: doubling_inv_def)
    next
      case False
      with r'(4) pos mx nr have "\<not> ringMode r'" "pos r' = int (Suc k)"
        by (simp_all add: len_def)
      moreover from False room top have "int (Suc k) < M" by linarith
      moreover from room r'(2) have "int (Suc k) \<le> len (buf r')" by simp
      ultimately show ?thesis
        using ex r'(2,3) mx by (simp add: doubling_inv_def)
    qed
    with r'(1) nr show ?thesis by (simp add: Write_def len_def)
  qed
  show ?thesis
  proof (cases "int k + 1 \<le> len (buf r)")
    case True
    then have gr: "grown avail [b] r = Return (r, None)"
      using sz by (simp add: grown_def)
    have "int (Suc k) \<le> 2 ^ j"
    proof (cases "2 ^ j < M")
      case True
      with j(2) \<open>int k + 1 \<le> len (buf r)\<close> show ?thesis by simp
    next
      case False
      with j(2) \<open>int k + 1 \<le> len (buf r)\<close> show ?thesis by simp
    qed
    with j(1,2) lower
    have "\<exists>j'\<le>Suc k. len (buf r) = (if 2 ^ j' < M then 2 ^ j' else M) \<and>
                 int (Suc k) \<le> 2 ^ j' \<and> (0 < j' \<longrightarrow> 2 ^ (j' - 1) < int (Suc k))"
      by (intro exI [of _ j]) simp
    moreover have "len (buf r) \<le> M"
      using j(2) by (simp split: if_splits)
    ultimately show ?thesis using finish [OF gr True] by blast
  next
    case False
    with le have full: "len (buf r) = int k" by linarith
    with below j(2) have pw: "2 ^ j < M" "int k = 2 ^ j"
      by (auto split: if_splits)
    define ns where "ns = (if 2 * int k \<ge> M then M else 2 * int k)"
    have ns: "0 \<le> ns" "ns \<le> M" "int k + 1 \<le> ns"
      using below k by (auto simp: ns_def)
    with av have an: "avail ns" by simp
    have "2 * int k \<le> max_int"
      using below M by (simp add: max_int_def)
    with grow_loop_double [of "int k"] k
    have gl: "grow_loop (if len (buf r) = 0 then 1 else len (buf r)) (int k + 1) = Some (2 * int k)"
      using full by simp
    have nsd: "ns = (if 2 * int k \<ge> maxSize r then maxSize r else 2 * int k)"
      using mx by (simp add: ns_def)
    define r1 where "r1 = r\<lparr>buf := fst (copy (replicate (nat ns) zero_byte) (buf r))\<rparr>"
    from Grow_ok [of r "int k + 1" "2 * int k" ns avail, OF gl nsd ns(1) an]
    have g: "Grow avail (int k + 1) r = Return (r1, None)" by (simp add: r1_def)
    have l1: "len (buf r1) = ns" using ns(1) by (simp add: r1_def)
    have gr: "grown avail [b] r = Return (r1, None)"
      using g False sz by (simp add: grown_def)
    have p: "(2::int) ^ Suc j = 2 * int k" using pw(2) by simp
    have "len (buf r1) = (if 2 ^ Suc j < M then 2 ^ Suc j else M)"
      unfolding l1 p ns_def by auto
    moreover have "int (Suc k) \<le> 2 ^ Suc j"
      unfolding p using k by linarith
    moreover have "0 < Suc j \<longrightarrow> 2 ^ (Suc j - 1) < int (Suc k)"
      using pw(2) by simp
    moreover have "Suc j \<le> Suc k" using j(1) by simp
    ultimately
    have "\<exists>j'\<le>Suc k. len (buf r1) = (if 2 ^ j' < M then 2 ^ j' else M) \<and>
                 int (Suc k) \<le> 2 ^ j' \<and> (0 < j' \<longrightarrow> 2 ^ (j' - 1) < int (Suc k))"
      by blast
    with finish [OF gr] ns l1 show ?thesis by simp
  qed
qed

lemma doubling_step:
  assumes "0 \<le> M" and "M \<le> 2 ^ 62" and "\<forall>n. 0 \<le> n \<and> n \<le> M \<longrightarrow> avail n"
    and "doubling_inv M k r"
  shows "\<exists>r'. Write avail [b] r = Return (r', 1, None) \<and> doubling_inv M (Suc k) r'"
proof (cases "ringMode r")
  case True
  with assms(4) show ?thesis by (rule doubling_step_ring)
next
  case False
  show ?thesis
  proof (cases "k = 0")
    case True
    with assms doubling_step_first show ?thesis by blast
  next
    case k: False
    with assms False doubling_step_growing [of M avail k r b] show ?thesis by blast
  qed
qed

lemma run_append:
  "run (cs @ ds) s =
     (case run cs s of Diverge \<Rightarrow> Diverge | Panic \<Rightarrow> Panic | Return s' \<Rightarrow> run ds s')"
proof (induction cs arbitrary: s)
  case Nil
  then show ?case by simp
next
  case (Cons ac cs)
  obtain avail c where "ac = (avail, c)" by (cases ac)
  with Cons.IH show ?case by (simp split: outcome.splits)
qed

lemma writes_snoc: "writes avail (ps @ [p]) = writes avail ps @ [(avail, OpWrite p)]"
  by (induction ps) simp_all

lemma singles_snoc: "singles (bs @ [b]) = singles bs @ [[b]]"
  by (induction bs) simp_all

lemma doubling_run:
  assumes "0 \<le> M" and "M \<le> 2 ^ 62" and "\<forall>n. 0 \<le> n \<and> n \<le> M \<longrightarrow> avail n"
    and "doubling_inv M 0 r0"
  shows "\<exists>r. run (writes avail (singles bs)) (r0, []) = Return (r, bs) \<and>
             doubling_inv M (length bs) r"
proof (induction bs rule: rev_induct)
  case Nil
  with assms(4) show ?case by simp
next
  case (snoc b bs)
  then obtain r where r: "run (writes avail (singles bs)) (r0, []) = Return (r, bs)"
    and inv: "doubling_inv M (length bs) r" by blast
  from doubling_step [OF assms(1-3) inv, of b] obtain r' where
    w: "Write avail [b] r = Return (r', 1, None)" and inv': "doubling_inv M (Suc (length bs)) r'"
    by blast
  from r w have "run (writes avail (singles (bs @ [b]))) (r0, []) = Return (r', bs @ [b])"
    by (simp add: singles_snoc writes_snoc run_append)
  with inv' show ?case by auto
qed

section \<open>The claims\<close>

text \<open>
  C1 (the code departs from it). Once the buffer is in ring mode, \<^verbatim>\<open>Bytes()\<close>
  should be the last \<open>M\<close> bytes submitted, oldest first. \<^verbatim>\<open>writeRing\<close> sets the
  cursor to 0 after its first \<^verbatim>\<open>copy\<close> and moves it again only when the write
  goes around the end, so a write that ends before the end of the slice leaves the
  cursor at 0. After \<^verbatim>\<open>NewRingBuffer(3, 7)\<close>, \<^verbatim>\<open>Write("abcdefg")\<close> and
  \<^verbatim>\<open>Write("12")\<close> the code returns \<^verbatim>\<open>"12cdefg"\<close>; the last 7 bytes submitted
  are \<^verbatim>\<open>"cdefg12"\<close>.
\<close>

theorem ring_content_fails_after_short_write:
  "session 3 7 [(always, OpWrite ''abcdefg''), (always, OpWrite ''12'')]
     = Return (\<lparr>buf = ''12cdefg'', pos = 0, written = 9, ringMode = True, maxSize = 7\<rparr>,
               ''abcdefg12'')
   \<and> Bytes \<lparr>buf = ''12cdefg'', pos = 0, written = 9, ringMode = True, maxSize = 7\<rparr>
        = Return ''12cdefg''
   \<and> drop (length ''abcdefg12'' - 7) ''abcdefg12'' = ''cdefg12''
   \<and> ''12cdefg'' \<noteq> ''cdefg12''"
  by code_simp

text \<open>
  C2 (amended). In ring mode, on a buffer whose slice has the maximum length \<open>M\<close>
  and whose cursor \<open>c\<close> lies in it, a write of at most \<open>M\<close> bytes returns its
  full length, copies as many bytes as fit from \<open>c\<close> to the end of the slice and
  the remainder from index 0. When the write reaches the end of the slice
  (\<open>M \<le> c + len p < 2 M\<close>) the cursor ends at \<open>(c + len p) mod M\<close>. Nothing is said
  here of the cursor after a write that ends before the end of the slice.
\<close>

theorem ring_write_layout:
  assumes ring: "ringMode r" and full: "len (buf r) = maxSize r"
    and pos: "0 \<le> pos r" "pos r \<le> maxSize r"
    and p: "len p \<le> maxSize r"
  shows "\<exists>r'. Write avail p r = Return (r', len p, None) \<and>
          buf r' = (if pos r + len p \<le> maxSize r
                    then take (nat (pos r)) (buf r) @ p @ drop (nat (pos r) + length p) (buf r)
                    else drop (nat (maxSize r - pos r)) p
                         @ drop (nat (pos r + len p - maxSize r)) (take (nat (pos r)) (buf r))
                         @ take (nat (maxSize r - pos r)) p) \<and>
          (maxSize r \<le> pos r + len p \<and> pos r + len p < 2 * maxSize r
             \<longrightarrow> pos r' = (pos r + len p) mod maxSize r) \<and>
          Written r' = add64 (Written r) (len p) \<and> ringMode r' \<and> maxSize r' = maxSize r"
proof -
  define c where "c = nat (pos r)"
  define dst where "dst = drop c (buf r)"
  have w: "Write avail p r = writeRing p r" using ring by (simp add: Write_def)
  have small: "\<not> len p > len (buf r)" using p full by simp
  have sl: "slice_from (buf r) (pos r) = Some dst"
    using pos full by (simp add: slice_from_def dst_def c_def)
  have cM: "c \<le> length (buf r)" "int c = pos r" "int (length (buf r)) = maxSize r"
    using pos full by (simp_all add: c_def len_def)
  have ldst: "length dst = length (buf r) - c" by (simp add: dst_def)
  show ?thesis
  proof (cases "pos r + len p \<le> maxSize r")
    case True
    then have fit: "c + length p \<le> length (buf r)"
      using cM by (simp add: len_def)
    then have k: "snd (copy dst p) = len p"
      using ldst by (simp add: snd_copy len_def)
    have m: "min (length dst) (length p) = length p"
      using fit ldst by simp
    have f: "fst (copy dst p) = p @ drop (c + length p) (buf r)"
      unfolding copy_def Let_def m by (simp add: dst_def add.commute)
    have no: "\<not> len p > snd (copy dst p)" using k by simp
    have cur: "maxSize r \<le> pos r + len p \<longrightarrow> (pos r + len p) mod maxSize r = 0"
      using True by auto
    show ?thesis
      unfolding w writeRing_to_end [OF small sl no] f
      using True cur ring by (simp add: c_def Written_def)
  next
    case False
    then have over: "length (buf r) < c + length p"
      using cM by (simp add: len_def)
    have plen: "length p \<le> length (buf r)"
      using p cM by (simp add: len_def)
    define k where "k = length (buf r) - c"
    have kp: "k < length p" "k + c = length (buf r)"
      using over cM(1) by (simp_all add: k_def)
    have sk: "snd (copy dst p) = int k"
      using kp ldst by (simp add: snd_copy len_def k_def)
    have m: "min (length dst) (length p) = k"
      using kp ldst by (simp add: k_def)
    have f: "fst (copy dst p) = take k p"
      unfolding copy_def Let_def m by (simp add: ldst k_def)
    have yes: "len p > snd (copy dst p)" using sk kp by (simp add: len_def)
    have rest: "slice_from p (snd (copy dst p)) = Some (drop k p)"
      using sk kp by (simp add: slice_from_def len_def)
    define n2 where "n2 = length p - k"
    have n2: "n2 \<le> c" "n2 \<le> length (buf r)"
      using plen kp by (simp_all add: n2_def)
    have lB: "length (take c (buf r) @ take k p) = length (buf r)"
      using kp cM(1) by simp
    have lr: "length (drop k p) = n2" by (simp add: n2_def)
    have m2: "min (length (take c (buf r) @ take k p)) (length (drop k p)) = n2"
      unfolding lB lr using n2 by simp
    have s2: "snd (copy (take c (buf r) @ take k p) (drop k p)) = int n2"
      unfolding copy_def Let_def m2 by simp
    have f2: "fst (copy (take c (buf r) @ take k p) (drop k p))
                = drop k p @ drop n2 (take c (buf r)) @ take k p"
      unfolding copy_def Let_def m2 using n2 cM(1) by (simp add: n2_def)
    have ik: "nat (maxSize r - pos r) = k"
      using cM by (simp add: k_def)
    have in2: "nat (pos r + len p - maxSize r) = n2"
      using cM kp by (simp add: n2_def k_def len_def)
    have cur: "pos r + len p < 2 * maxSize r \<longrightarrow> (pos r + len p) mod maxSize r = int n2"
    proof
      assume lt: "pos r + len p < 2 * maxSize r"
      have "int n2 = pos r + len p - maxSize r"
        using cM kp by (simp add: n2_def k_def len_def)
      moreover have "(pos r + len p) mod maxSize r = pos r + len p - maxSize r"
      proof -
        have "(pos r + len p - maxSize r + maxSize r) mod maxSize r
                = (pos r + len p - maxSize r) mod maxSize r"
          by (rule mod_add_self2)
        moreover have "(pos r + len p - maxSize r) mod maxSize r = pos r + len p - maxSize r"
          using lt False by (intro mod_pos_pos_trivial) linarith+
        ultimately show ?thesis by simp
      qed
      ultimately show "(pos r + len p) mod maxSize r = int n2" by simp
    qed
    show ?thesis
      unfolding w writeRing_around [OF small sl yes] rest f
      using False cur s2 f2 ik in2 ring
      by (simp add: c_def [symmetric] Written_def)
  qed
qed

theorem ring_write_layout_witness:
  "ringMode mid_ring \<and> len (buf mid_ring) = maxSize mid_ring
   \<and> 0 \<le> pos mid_ring \<and> pos mid_ring \<le> maxSize mid_ring
   \<and> len ''123456'' \<le> maxSize mid_ring
   \<and> maxSize mid_ring \<le> pos mid_ring + len ''123456''
   \<and> pos mid_ring + len ''123456'' < 2 * maxSize mid_ring
   \<and> (\<exists>r'. Write always ''123456'' mid_ring = Return (r', 6, None)
          \<and> buf r' = ''6b12345'' \<and> pos r' = 1)
   \<and> len ''123'' \<le> maxSize mid_ring
   \<and> (\<exists>r'. Write always ''123'' mid_ring = Return (r', 3, None) \<and> buf r' = ''ab123fg'')"
proof -
  have h: "ringMode mid_ring" "len (buf mid_ring) = maxSize mid_ring"
    "0 \<le> pos mid_ring" "pos mid_ring \<le> maxSize mid_ring"
    by (simp_all add: mid_ring_def len_def)
  have p1: "len ''123456'' \<le> maxSize mid_ring" and p2: "len ''123'' \<le> maxSize mid_ring"
    by (simp_all add: mid_ring_def len_def)
  have e: "maxSize mid_ring \<le> pos mid_ring + len ''123456''"
    "pos mid_ring + len ''123456'' < 2 * maxSize mid_ring"
    by (simp_all add: mid_ring_def len_def)
  from ring_write_layout [OF h p1, of always] e
  have a: "\<exists>r'. Write always ''123456'' mid_ring = Return (r', 6, None)
             \<and> buf r' = ''6b12345'' \<and> pos r' = 1"
    by (simp add: mid_ring_def len_def) blast
  from ring_write_layout [OF h p2, of always]
  have b: "\<exists>r'. Write always ''123'' mid_ring = Return (r', 3, None) \<and> buf r' = ''ab123fg''"
    by (simp add: mid_ring_def len_def) blast
  from h p1 p2 e a b show ?thesis by blast
qed

text \<open>
  C2 as stated fails at its own example: after writing \<^verbatim>\<open>"123"\<close> at cursor 2 of
  \<^verbatim>\<open>"abcdefg"\<close> the slice is \<^verbatim>\<open>"ab123fg"\<close>, but the cursor is 0, not
  \<open>(2 + 3) mod 7 = 5\<close>, and \<^verbatim>\<open>Bytes()\<close> is \<^verbatim>\<open>"ab123fg"\<close>, not \<^verbatim>\<open>"123fgab"\<close>.
\<close>

theorem ring_write_example_counterexample:
  "Write always ''123'' mid_ring
     = Return (\<lparr>buf = ''ab123fg'', pos = 0, written = 17, ringMode = True, maxSize = 7\<rparr>, 3, None)
   \<and> (0::int) \<noteq> (pos mid_ring + len ''123'') mod maxSize mid_ring
   \<and> (0::int) \<noteq> 5
   \<and> Bytes \<lparr>buf = ''ab123fg'', pos = 0, written = 17, ringMode = True, maxSize = 7\<rparr>
        = Return ''ab123fg''
   \<and> ''ab123fg'' \<noteq> ''123fgab''"
  by code_simp

text \<open>
  C3. After construction or \<^verbatim>\<open>Reset\<close>, and through any calls whose writes fit,
  as long as the buffer is not in ring mode \<^verbatim>\<open>Bytes()\<close> returns the log: the
  bytes of all the successful writes, in the order submitted, none lost.
\<close>

theorem no_loss_before_wrap:
  assumes "session initialSize M cs = Return (r, submitted)"
    and "\<forall>ac \<in> set cs. op_fits M (snd ac)"
    and "\<not> ringMode r"
  shows "Bytes r = Return submitted"
  using session_log_inv [OF assms(1,2)] assms(3)
  by (simp add: log_inv_def Bytes_def)

theorem no_loss_before_wrap_witness:
  "\<exists>r. session 3 7 [(always, OpWrite ''abc''), (always, OpGrow 5), (never, OpWrite ''wxyz''),
                      (always, OpWrite ''def'')] = Return (r, ''abcdef'')
       \<and> \<not> ringMode r \<and> Bytes r = Return ''abcdef''"
proof -
  have h: "session 3 7 [(always, OpWrite ''abc''), (always, OpGrow 5), (never, OpWrite ''wxyz''),
                        (always, OpWrite ''def'')]
     = Return (\<lparr>buf = ''abcdef'', pos = 6, written = 6, ringMode = False, maxSize = 7\<rparr>,
               ''abcdef'')"
    by code_simp
  have f: "\<forall>ac \<in> set [(always, OpWrite ''abc''), (always, OpGrow 5), (never, OpWrite ''wxyz''),
                        (always, OpWrite ''def'')]. op_fits 7 (snd ac)"
    by (simp add: op_fits_def len_def max_int_def)
  have n: "\<not> ringMode \<lparr>buf = ''abcdef'', pos = 6, written = 6, ringMode = False, maxSize = 7\<rparr>"
    by simp
  from no_loss_before_wrap [OF h f n] h n show ?thesis by blast
qed

text \<open>
  C4. For a buffer constructed with maximum capacity \<open>M\<close> and any sequence of
  \<^verbatim>\<open>Write\<close>, \<^verbatim>\<open>Grow\<close>, \<^verbatim>\<open>Bytes\<close> and \<^verbatim>\<open>Reset\<close> calls with any
  arguments and any allocator behaviour, \<^verbatim>\<open>Cap()\<close> is at most \<open>M\<close> after the
  calls. Every prefix of a run is a run, so the bound holds after every call.
\<close>

theorem capacity_ceiling:
  assumes "session initialSize M cs = Return (r, submitted)"
  shows "Cap r \<le> M"
proof -
  from assms obtain r0 where "NewRingBuffer initialSize M = Return r0"
    and "run cs (r0, []) = Return (r, submitted)"
    by (rule session_Return)
  then have "cap_inv M r"
    using NewRingBuffer_cap_inv run_cap_inv by blast
  then show ?thesis by (simp add: cap_inv_def Cap_def)
qed

theorem capacity_ceiling_witness:
  "\<exists>r l. session 3 7 [(always, OpGrow 100), (always, OpWrite ''abcdefghijk''), (always, OpBytes),
                        (always, OpReset), (always, OpWrite ''xy'')] = Return (r, l)
         \<and> Cap r \<le> 7"
proof -
  have h: "session 3 7 [(always, OpGrow 100), (always, OpWrite ''abcdefghijk''), (always, OpBytes),
                        (always, OpReset), (always, OpWrite ''xy'')]
     = Return (\<lparr>buf = ''xyghijk'', pos = 2, written = 2, ringMode = False, maxSize = 7\<rparr>, ''xy'')"
    by code_simp
  from capacity_ceiling [OF h] h show ?thesis by blast
qed

text \<open>
  C5. In every state reachable from construction by \<^verbatim>\<open>Write\<close>, \<^verbatim>\<open>Grow\<close>,
  \<^verbatim>\<open>Bytes\<close> and \<^verbatim>\<open>Reset\<close> calls, ring mode implies that the allocated
  length equals the maximum capacity given at construction: the buffer never enters
  ring mode, by an exact fill or by an overflowing write, with a smaller allocation.
\<close>

theorem wrapped_at_max_capacity:
  assumes "session initialSize M cs = Return (r, submitted)"
  shows "maxSize r = M \<and> (ringMode r \<longrightarrow> len (buf r) = maxSize r)"
proof -
  from assms obtain r0 where "NewRingBuffer initialSize M = Return r0"
    and "run cs (r0, []) = Return (r, submitted)"
    by (rule session_Return)
  then have "cap_inv M r"
    using NewRingBuffer_cap_inv run_cap_inv by blast
  then show ?thesis by (simp add: cap_inv_def)
qed

theorem wrapped_at_max_capacity_witness:
  "\<exists>r l. session 3 7 [(always, OpWrite ''abcdefghijk'')] = Return (r, l)
         \<and> ringMode r \<and> len (buf r) = 7 \<and> maxSize r = 7"
proof -
  have h: "session 3 7 [(always, OpWrite ''abcdefghijk'')]
     = Return (\<lparr>buf = ''efghijk'', pos = 0, written = 11, ringMode = True, maxSize = 7\<rparr>,
               ''abcdefghijk'')"
    by code_simp
  from wrapped_at_max_capacity [OF h] h show ?thesis by auto
qed

text \<open>
  C6. On a buffer constructed with initial allocation 0 and maximum capacity \<open>M\<close>
  (at most \<open>2\<^sup>6\<^sup>2\<close>, so that doubling cannot wrap), with an allocator that serves
  every request up to \<open>M\<close>, any \<open>k \<ge> 1\<close> single-byte writes all return, and
  \<^verbatim>\<open>Cap()\<close> is then the least power of two \<open>2\<^sup>j \<ge> k\<close> as long as that power is
  below \<open>M\<close>, and exactly \<open>M\<close> from the first power that reaches \<open>M\<close>: the
  observed values are 1, 2, 4, 8, ... and then \<open>M\<close>.
\<close>

theorem doubling_growth:
  assumes "0 \<le> M" and "M \<le> 2 ^ 62" and "\<forall>n. 0 \<le> n \<and> n \<le> M \<longrightarrow> avail n"
    and "bs \<noteq> []"
  shows "\<exists>r j. session 0 M (writes avail (singles bs)) = Return (r, bs) \<and>
           Cap r = (if 2 ^ j < M then 2 ^ j else M) \<and>
           int (length bs) \<le> 2 ^ j \<and> (0 < j \<longrightarrow> 2 ^ (j - 1) < int (length bs))"
proof -
  define r0 where "r0 = \<lparr>buf = [], pos = 0, written = 0, ringMode = False, maxSize = M\<rparr>"
  have new: "NewRingBuffer 0 M = Return r0"
    using assms(1) by (simp add: NewRingBuffer_def r0_def)
  have "doubling_inv M 0 r0"
    by (simp add: doubling_inv_def r0_def len_def)
  from doubling_run [OF assms(1-3) this, of bs] obtain r where
    r: "run (writes avail (singles bs)) (r0, []) = Return (r, bs)"
    and inv: "doubling_inv M (length bs) r" by blast
  from inv assms(4) obtain j where "len (buf r) = (if 2 ^ j < M then 2 ^ j else M)"
    "int (length bs) \<le> 2 ^ j" "0 < j \<longrightarrow> 2 ^ (j - 1) < int (length bs)"
    unfolding doubling_inv_def by auto
  moreover from new r have "session 0 M (writes avail (singles bs)) = Return (r, bs)"
    by (simp add: session_def)
  ultimately show ?thesis unfolding Cap_def by blast
qed

theorem doubling_growth_witness:
  "(0::int) \<le> 21 \<and> (21::int) \<le> 2 ^ 62 \<and> ''0123456789'' \<noteq> [] \<and>
   (\<exists>r j. session 0 21 (writes always (singles ''0123456789'')) = Return (r, ''0123456789'') \<and>
       Cap r = 16 \<and>
       Cap r = (if (2::int) ^ j < 21 then 2 ^ j else 21) \<and> int (length ''0123456789'') \<le> 2 ^ j)"
proof -
  have a: "(0::int) \<le> 21" "(21::int) \<le> 2 ^ 62" "''0123456789'' \<noteq> []" by simp_all
  have b: "\<forall>n. 0 \<le> n \<and> n \<le> 21 \<longrightarrow> always n" by (simp add: always_def)
  from doubling_growth [OF a(1,2) b a(3)] obtain r j where
    r: "session 0 21 (writes always (singles ''0123456789'')) = Return (r, ''0123456789'')"
    and c: "Cap r = (if (2::int) ^ j < 21 then 2 ^ j else 21)" "int (length ''0123456789'') \<le> 2 ^ j"
    by blast
  have "(case session 0 21 (writes always (singles ''0123456789'')) of
           Return (r, l) \<Rightarrow> Cap r = 16 | _ \<Rightarrow> False)"
    by code_simp
  with r have "Cap r = 16" by simp
  with r c a show ?thesis by blast
qed

text \<open>
  C7. After any calls whose writes fit, \<^verbatim>\<open>Written()\<close> is the total length of the
  successful writes since construction or the last \<^verbatim>\<open>Reset\<close>, in both modes: in
  64-bit arithmetic always, and as a plain number while the total is at most the largest
  \<^verbatim>\<open>int\<close>. A further successful write, of any length that fits, returns the full
  length of its input and adds it to the counter, also when it is longer than the
  maximum capacity.
\<close>

theorem written_is_sum:
  assumes "session initialSize M cs = Return (r, submitted)"
    and "\<forall>ac \<in> set cs. op_fits M (snd ac)"
  shows "Written r = wrap64 (len submitted) \<and>
         (len submitted \<le> max_int \<longrightarrow> Written r = len submitted) \<and>
         (\<forall>avail p r' n. M + len p \<le> max_int \<and> Write avail p r = Return (r', n, None)
            \<longrightarrow> n = len p \<and> Written r' = add64 (Written r) (len p))"
proof -
  from session_log_inv [OF assms] have inv: "log_inv M r submitted" .
  then have w: "written r = wrap64 (len submitted)" by (simp add: log_inv_def)
  have "n = len p \<and> written r' = add64 (written r) (len p)"
    if "M + len p \<le> max_int" and "Write avail p r = Return (r', n, None)" for avail p r' n
    using Write_log_inv [OF inv that] w by (simp add: log_inv_def add64_log)
  with w show ?thesis
    by (auto simp: Written_def wrap64_nonneg)
qed

theorem written_is_sum_witness:
  "\<exists>r r'. session 3 7 [(always, OpWrite ''abcdefghijk''), (always, OpWrite ''xy'')]
             = Return (r, ''abcdefghijkxy'')
          \<and> Written r = 13
          \<and> 7 + len ''abcdefghijklmnopqrstuvwxy'' \<le> max_int
          \<and> Write never ''abcdefghijklmnopqrstuvwxy'' r = Return (r', 25, None)
          \<and> Written r' = 38"
proof -
  define r where "r = \<lparr>buf = ''xyghijk'', pos = 0, written = 13, ringMode = True, maxSize = 7\<rparr>"
  define r' where "r' = \<lparr>buf = ''stuvwxy'', pos = 0, written = 38, ringMode = True, maxSize = 7\<rparr>"
  have h: "session 3 7 [(always, OpWrite ''abcdefghijk''), (always, OpWrite ''xy'')]
             = Return (r, ''abcdefghijkxy'')"
    unfolding r_def by code_simp
  have f: "\<forall>ac \<in> set [(always, OpWrite ''abcdefghijk''), (always, OpWrite ''xy'')].
             op_fits 7 (snd ac)"
    by (simp add: op_fits_def len_def max_int_def)
  have s: "7 + len ''abcdefghijklmnopqrstuvwxy'' \<le> max_int"
    by (simp add: len_def max_int_def)
  have w: "Write never ''abcdefghijklmnopqrstuvwxy'' r = Return (r', 25, None)"
    unfolding r_def r'_def by code_simp
  from written_is_sum [OF h f]
  have a: "Written r = wrap64 (len ''abcdefghijkxy'')"
    and b: "7 + len ''abcdefghijklmnopqrstuvwxy'' \<le> max_int \<and>
            Write never ''abcdefghijklmnopqrstuvwxy'' r = Return (r', 25, None)
            \<longrightarrow> Written r' = add64 (Written r) (len ''abcdefghijklmnopqrstuvwxy'')"
    by blast+
  from a have c: "Written r = 13" by (simp add: len_def wrap64_def)
  from b s w c have "Written r' = 38" by (simp add: len_def add64_def wrap64_def)
  with h c s w show ?thesis by blast
qed

text \<open>
  C8 (amended). On \<^verbatim>\<open>NewRingBuffer(0, 21)\<close>, with an allocator that serves every
  request up to 21 bytes, writing the decimal strings \<^verbatim>\<open>"0"\<close> to \<^verbatim>\<open>"19"\<close> one
  at a time returns, and after the 20 writes \<^verbatim>\<open>Written()\<close> is 30 and \<^verbatim>\<open>Cap()\<close>
  is 21. Nothing is said here of \<^verbatim>\<open>Bytes()\<close>.
\<close>

theorem walkthrough_written_and_cap:
  assumes "\<forall>n. 0 \<le> n \<and> n \<le> 21 \<longrightarrow> avail n"
  shows "\<exists>r l. session 0 21
                 (writes avail (singles ''0123456789'' @
                    [''10'', ''11'', ''12'', ''13'', ''14'', ''15'', ''16'', ''17'', ''18'', ''19'']))
               = Return (r, l)
             \<and> Written r = 30 \<and> Cap r = 21"
proof -
  have av: "avail 1" "avail 2" "avail 4" "avail 8" "avail 16" "avail 21"
    using assms by simp_all
  show ?thesis
    by (simp add: session_def NewRingBuffer_def Write_def write_def Grow_def makeSlice_def av
        grow_loop.simps writeRing_def Let_def len_def copy_def slice_from_def add64_def sub64_def
        mul64_def wrap64_def expansionFactor_def zero_byte_def Written_def Cap_def)
qed

theorem walkthrough_written_and_cap_witness:
  "\<exists>r l. session 0 21
            (writes always (singles ''0123456789'' @
               [''10'', ''11'', ''12'', ''13'', ''14'', ''15'', ''16'', ''17'', ''18'', ''19'']))
          = Return (r, l)
        \<and> Written r = 30 \<and> Cap r = 21"
proof -
  have "\<forall>n. 0 \<le> n \<and> n \<le> 21 \<longrightarrow> always n" by (simp add: always_def)
  from walkthrough_written_and_cap [OF this] show ?thesis .
qed

text \<open>
  C8 as stated fails: after the 20 writes \<^verbatim>\<open>Written()\<close> is 30, not 28, and
  \<^verbatim>\<open>Bytes()\<close> is not the last 21 characters of the digit stream.
\<close>

theorem walkthrough_counterexample:
  "session 0 21
     (writes always (singles ''0123456789'' @
        [''10'', ''11'', ''12'', ''13'', ''14'', ''15'', ''16'', ''17'', ''18'', ''19'']))
     = Return (\<lparr>buf = ''196345678910111213141'', pos = 0, written = 30, ringMode = True,
                maxSize = 21\<rparr>,
               ''012345678910111213141516171819'')
   \<and> Written \<lparr>buf = ''196345678910111213141'', pos = 0, written = 30, ringMode = True,
               maxSize = 21\<rparr> = 30
   \<and> (30::int) \<noteq> 28
   \<and> Bytes \<lparr>buf = ''196345678910111213141'', pos = 0, written = 30, ringMode = True,
             maxSize = 21\<rparr> = Return ''196345678910111213141''
   \<and> drop (length ''012345678910111213141516171819'' - 21) ''012345678910111213141516171819''
        = ''910111213141516171819''
   \<and> ''196345678910111213141'' \<noteq> ''910111213141516171819''"
  by code_simp



text \<open>
  C10. In ring mode \<^verbatim>\<open>Write\<close> is \<^verbatim>\<open>writeRing\<close>, which takes no allocator: it
  allocates nothing, always ends, and whatever it returns is the full length of the
  input with no error, for an input of any length, empty or longer than the maximum
  capacity. On a buffer whose cursor lies inside its slice, and for an input whose
  length is an \<^verbatim>\<open>int\<close>, it does return.
\<close>

theorem ring_write_cannot_fail:
  assumes "ringMode r"
  shows "Write avail p r = writeRing p r \<and> Write avail p r \<noteq> Diverge \<and>
         (\<forall>r' n e. Write avail p r = Return (r', n, e) \<longrightarrow> n = len p \<and> e = None) \<and>
         (0 \<le> pos r \<and> pos r \<le> len (buf r) \<and> len p \<le> max_int
            \<longrightarrow> (\<exists>r'. Write avail p r = Return (r', len p, None)))"
proof -
  from assms have eq: "Write avail p r = writeRing p r" by (simp add: Write_def)
  show ?thesis
    unfolding eq using writeRing_not_Diverge writeRing_fields writeRing_total by blast
qed

theorem ring_write_cannot_fail_witness:
  "ringMode mid_ring
   \<and> 0 \<le> pos mid_ring \<and> pos mid_ring \<le> len (buf mid_ring)
   \<and> len ''abcdefghijklmnop'' \<le> max_int
   \<and> Write never ''abcdefghijklmnop'' mid_ring = writeRing ''abcdefghijklmnop'' mid_ring
   \<and> (\<exists>r'. Write never ''abcdefghijklmnop'' mid_ring
               = Return (r', len ''abcdefghijklmnop'', None))"
proof -
  have r: "ringMode mid_ring" by (simp add: mid_ring_def)
  have p: "0 \<le> pos mid_ring \<and> pos mid_ring \<le> len (buf mid_ring)
           \<and> len ''abcdefghijklmnop'' \<le> max_int"
    by (simp add: mid_ring_def len_def max_int_def)
  from ring_write_cannot_fail [OF r, of never "''abcdefghijklmnop''"] r p
  show ?thesis by blast
qed

end
